theory Spec2Isabelle
  imports Main "HOL-Library.AList" "HOL-Library.Sublist"
begin

section \<open>Data model of the population orchestrator (populator.py)\<close>

text \<open>
  Python values that flow through the populator: \<open>None\<close>, booleans, unbounded
  integers and strings. A row (a Python \<open>dict\<close>, which keeps insertion order) is an
  association list; \<open>row[k] = v\<close> is \<open>AList.update k v row\<close>, which replaces the value
  in place when the key is present and appends the pair otherwise.
\<close>

datatype pyval = PNone | PBool bool | PInt int | PStr string

type_synonym row = "(string \<times> pyval) list"

fun truthy :: "pyval \<Rightarrow> bool" where
  "truthy PNone = False"
| "truthy (PBool b) = b"
| "truthy (PInt i) = (i \<noteq> 0)"
| "truthy (PStr s) = (s \<noteq> [])"

text \<open>Column descriptor and foreign-key descriptor, as the schema analyzer supplies them.
  The key \<open>is_nullable\<close> of a foreign-key descriptor is optional in the code
  (\<open>'is_nullable' in fk_info\<close>).\<close>

record column_info =
  column_name :: string
  data_type :: string
  is_nullable :: string
  column_key :: string
  extra :: string

record foreign_key =
  fk_column :: string
  referenced_table :: string
  referenced_column :: string
  fk_is_nullable :: "bool option"

text \<open>What \<open>db.execute_query\<close> can do: return \<open>None\<close>, return a truthy value that is
  not a sequence (the success marker of a statement with no result set), return a list of
  rows, or raise \<open>mysql.connector.Error\<close>.\<close>

datatype db_reply = QNone | QTrue | QRows "row list" | QError

datatype error = DbError | KeyError | TypeError | IndexError

text \<open>
  The collaborators and the configuration of one \<open>DatabasePopulator\<close>. The database, the
  value synthesizer and the random source are external: each is a function of the number
  of the external call (the \<open>tick\<close> of the state), so that every possible run is the run
  against some such environment. The value synthesizer is taken to return a value on
  every call. The set of circular tables is kept as a list read through \<open>set\<close>.
\<close>

record env =
  analyze_schema :: bool
  get_table_insertion_order :: "string list \<times> string list"
  table_columns :: "string \<rightharpoonup> column_info list"
  foreign_keys :: "string \<rightharpoonup> foreign_key list"
  execute_query :: "nat \<Rightarrow> string \<Rightarrow> pyval list option \<Rightarrow> bool \<Rightarrow> db_reply"
  generate_value :: "nat \<Rightarrow> column_info \<Rightarrow> string option \<Rightarrow> pyval"
  rnd :: "nat \<Rightarrow> nat"
  num_records :: int
  max_retries :: int

text \<open>
  The mutable fields of the populator. \<open>inserted_data\<close> is a \<open>defaultdict(list)\<close>: a key
  exists once something was appended under it. \<open>failed_tables\<close> is a Python set, kept as a
  list read through \<open>set\<close>. \<open>sync_source_ids\<close> is the attribute \<open>_sync_source_ids\<close>,
  \<open>None\<close> while the attribute does not exist.
\<close>

record pstate =
  inserted_data :: "string \<rightharpoonup> row list"
  failed_tables :: "string list"
  sync_source_ids :: "pyval list option"
  tick :: nat

text \<open>A call either raises (\<open>Inl\<close>) or returns (\<open>Inr\<close>); both carry the state reached,
  since an exception caught by a loop leaves the mutations made so far in place.\<close>

type_synonym 'a res = "(error \<times> pstate) + ('a \<times> pstate)"

definition bindE :: "'a res \<Rightarrow> ('a \<Rightarrow> pstate \<Rightarrow> 'b res) \<Rightarrow> 'b res" where
  "bindE m f = (case m of Inl e \<Rightarrow> Inl e | Inr (a, s) \<Rightarrow> f a s)"

definition res_state :: "'a res \<Rightarrow> pstate" where
  "res_state m = (case m of Inl (e, s) \<Rightarrow> s | Inr (a, s) \<Rightarrow> s)"

definition init_state :: pstate where
  "init_state = \<lparr>inserted_data = Map.empty, failed_tables = [], sync_source_ids = None, tick = 0\<rparr>"

definition store_of :: "pstate \<Rightarrow> string \<Rightarrow> row list" where
  "store_of s t = (case inserted_data s t of None \<Rightarrow> [] | Some rs \<Rightarrow> rs)"

section \<open>External calls and Python library functions\<close>

definition next_tick :: "pstate \<Rightarrow> pstate" where
  "next_tick s = s\<lparr>tick := Suc (tick s)\<rparr>"

definition db_execute :: "env \<Rightarrow> string \<Rightarrow> pyval list option \<Rightarrow> bool \<Rightarrow> pstate \<Rightarrow> db_reply res" where
  "db_execute E q ps c s =
     (case execute_query E (tick s) q ps c of
        QError \<Rightarrow> Inl (DbError, next_tick s)
      | r \<Rightarrow> Inr (r, next_tick s))"

definition gen_value :: "env \<Rightarrow> column_info \<Rightarrow> string option \<Rightarrow> pstate \<Rightarrow> pyval \<times> pstate" where
  "gen_value E c tn s = (generate_value E (tick s) c tn, next_tick s)"

text \<open>\<open>random.randint(a, b)\<close>: an integer of the closed range.\<close>

definition randint :: "env \<Rightarrow> int \<Rightarrow> int \<Rightarrow> pstate \<Rightarrow> int \<times> pstate" where
  "randint E a b s = (a + int (rnd E (tick s) mod nat (b - a + 1)), next_tick s)"

text \<open>\<open>random.choice(xs)\<close>: raises IndexError on an empty sequence.\<close>

definition choice :: "env \<Rightarrow> 'a list \<Rightarrow> pstate \<Rightarrow> 'a res" where
  "choice E xs s =
     (if xs = [] then Inl (IndexError, s)
      else Inr (xs ! (rnd E (tick s) mod length xs), next_tick s))"

text \<open>\<open>random.shuffle(xs)\<close>: for \<open>i\<close> from \<open>len(xs) - 1\<close> down to 1, swap \<open>xs[i]\<close> with
  \<open>xs[j]\<close> for a random \<open>j \<le> i\<close>.\<close>

fun shuffle_loop :: "env \<Rightarrow> nat \<Rightarrow> 'a list \<Rightarrow> pstate \<Rightarrow> 'a list \<times> pstate" where
  "shuffle_loop E 0 xs s = (xs, s)"
| "shuffle_loop E (Suc k) xs s =
     (let i = Suc k; j = rnd E (tick s) mod (i + 1)
      in shuffle_loop E k (xs[i := xs ! j, j := xs ! i]) (next_tick s))"

definition shuffle :: "env \<Rightarrow> 'a list \<Rightarrow> pstate \<Rightarrow> 'a list \<times> pstate" where
  "shuffle E xs s = shuffle_loop E (length xs - 1) xs s"

text \<open>\<open>list(a_set)\<close>: every element once, in an order the program does not control.\<close>

definition list_of_set :: "env \<Rightarrow> 'a list \<Rightarrow> pstate \<Rightarrow> 'a list \<times> pstate" where
  "list_of_set E xs s = shuffle E (remdups xs) s"

text \<open>\<open>str.lower()\<close> on ASCII text, and \<open>str(n)\<close> in decimal.\<close>

definition lower_char :: "char \<Rightarrow> char" where
  "lower_char c =
     (case map_of (zip ''ABCDEFGHIJKLMNOPQRSTUVWXYZ'' ''abcdefghijklmnopqrstuvwxyz'') c of
        None \<Rightarrow> c
      | Some d \<Rightarrow> d)"

definition lower :: "string \<Rightarrow> string" where
  "lower s = map lower_char s"

definition digit_char :: "nat \<Rightarrow> char" where
  "digit_char d = ''0123456789'' ! d"

fun str_nat :: "nat \<Rightarrow> string" where
  "str_nat n = (if n < 10 then [digit_char n] else str_nat (n div 10) @ [digit_char (n mod 10)])"

declare str_nat.simps [simp del]

definition str_int :: "int \<Rightarrow> string" where
  "str_int i = (if i < 0 then ''-'' @ str_nat (nat (- i)) else str_nat (nat i))"

fun join :: "string \<Rightarrow> string list \<Rightarrow> string" where
  "join sep [] = []"
| "join sep [x] = x"
| "join sep (x # y # ys) = x @ sep @ join sep (y # ys)"

text \<open>The truth value of a reply, and \<open>result[0][key]\<close> on a truthy reply.\<close>

fun reply_truthy :: "db_reply \<Rightarrow> bool" where
  "reply_truthy (QRows rs) = (rs \<noteq> [])"
| "reply_truthy QTrue = True"
| "reply_truthy _ = False"

fun first_field :: "db_reply \<Rightarrow> string \<Rightarrow> pstate \<Rightarrow> pyval res" where
  "first_field (QRows (r # rs)) k s = (case map_of r k of None \<Rightarrow> Inl (KeyError, s) | Some v \<Rightarrow> Inr (v, s))"
| "first_field (QRows []) k s = Inl (IndexError, s)"
| "first_field _ k s = Inl (TypeError, s)"


fun reply_nonempty :: "db_reply \<Rightarrow> pstate \<Rightarrow> bool res" where
  "reply_nonempty (QRows rs) s = Inr (rs \<noteq> [], s)"
| "reply_nonempty QTrue s = Inl (TypeError, s)"
| "reply_nonempty _ s = Inr (False, s)"

fun rows_field :: "db_reply \<Rightarrow> string \<Rightarrow> pstate \<Rightarrow> pyval list res" where
  "rows_field (QRows rs) k s =
     (case those (map (\<lambda>r. map_of r k) rs) of None \<Rightarrow> Inl (KeyError, s) | Some vs \<Rightarrow> Inr (vs, s))"
| "rows_field _ k s = Inl (TypeError, s)"

section \<open>Row Generator: \<open>_generate_placeholder_value\<close> and \<open>_generate_row_data\<close>\<close>

definition generate_placeholder_value :: "env \<Rightarrow> column_info \<Rightarrow> pstate \<Rightarrow> pyval \<times> pstate" where
  "generate_placeholder_value E column s =
     (if column_key column = ''PRI'' then
        (let dt = lower (data_type column) in
         if dt \<in> set [''int'', ''bigint'', ''smallint'', ''tinyint'', ''mediumint''] then
           (let (n, s') = randint E 1000000 9999999 s in (PInt n, s'))
         else if dt \<in> set [''varchar'', ''char''] then
           (let (n, s') = randint E 100000 999999 s in (PStr (''temp-'' @ str_int n), s'))
         else gen_value E column None s)
      else gen_value E column None s)"

text \<open>The prelude of \<open>_generate_row_data\<close> for the table \<open>SyncSource_LogAlert\<close>: it caches the
  identifiers of \<open>SyncSource\<close> read from the database.\<close>

definition sync_prelude :: "env \<Rightarrow> string \<Rightarrow> pstate \<Rightarrow> unit res" where
  "sync_prelude E table s =
     (if table = ''SyncSource_LogAlert'' then
        bindE (db_execute E ''SELECT ID FROM SyncSource LIMIT 1'' None False s) (\<lambda>result s1.
        bindE (reply_nonempty result s1) (\<lambda>found s1.
          if found then
            bindE (db_execute E ''SELECT ID FROM SyncSource'' None False s1) (\<lambda>result s2.
            bindE (reply_nonempty result s2) (\<lambda>found s2.
              if found then
                bindE (rows_field result ''ID'' s2) (\<lambda>ids s3.
                  Inr ((), s3\<lparr>sync_source_ids := Some ids\<rparr>))
              else Inr ((), s2)))
          else Inr ((), s1)))
      else Inr ((), s))"

definition sync_pool :: "pstate \<Rightarrow> pyval list" where
  "sync_pool s = (case sync_source_ids s of None \<Rightarrow> [] | Some ids \<Rightarrow> ids)"

text \<open>The two scans of \<open>schema.foreign_keys[table]\<close>: the first descriptor of the column,
  then the first descriptor of the column and the referenced table.\<close>

definition fk_lookup :: "env \<Rightarrow> string \<Rightarrow> string \<Rightarrow> foreign_key option" where
  "fk_lookup E table cn =
     (case foreign_keys E table of None \<Rightarrow> None
      | Some fks \<Rightarrow> find (\<lambda>fk. fk_column fk = cn) fks)"

definition fk_info_lookup :: "env \<Rightarrow> string \<Rightarrow> string \<Rightarrow> string \<Rightarrow> foreign_key option" where
  "fk_info_lookup E table cn rt =
     (case foreign_keys E table of None \<Rightarrow> None
      | Some fks \<Rightarrow> find (\<lambda>fk. fk_column fk = cn \<and> referenced_table fk = rt) fks)"

definition resolve_nullable :: "env \<Rightarrow> string \<Rightarrow> column_info \<Rightarrow> foreign_key \<Rightarrow> bool" where
  "resolve_nullable E table col fk =
     (let nullable = (lower (is_nullable col) = ''yes'') in
      case fk_info_lookup E table (column_name col) (referenced_table fk) of
        None \<Rightarrow> nullable
      | Some fk_info \<Rightarrow> (case fk_is_nullable fk_info of None \<Rightarrow> nullable | Some b \<Rightarrow> b))"

definition has_data :: "pstate \<Rightarrow> string \<Rightarrow> bool" where
  "has_data s t = (case inserted_data s t of None \<Rightarrow> False | Some rs \<Rightarrow> rs \<noteq> [])"

text \<open>The value of a foreign-key column (lines 232 to 283).\<close>

definition resolve_fk :: "env \<Rightarrow> string \<Rightarrow> bool \<Rightarrow> column_info \<Rightarrow> foreign_key \<Rightarrow> pstate \<Rightarrow> pyval res" where
  "resolve_fk E table handle_circular col fk s =
     (let rt = referenced_table fk; rc = referenced_column fk;
          nullable = resolve_nullable E table col fk
      in
      if has_data s rt then
        bindE (choice E (store_of s rt) s) (\<lambda>referenced_row s1.
          case map_of referenced_row rc of
            None \<Rightarrow> Inl (KeyError, s1)
          | Some v \<Rightarrow> Inr (v, s1))
      else if nullable then Inr (PNone, s)
      else if handle_circular then
        bindE (db_execute E (''SELECT '' @ rc @ '' FROM '' @ rt @ '' LIMIT 1'') None False s)
          (\<lambda>result s1.
            if reply_truthy result then
              bindE (first_field result rc s1) (\<lambda>v s2.
                if v \<noteq> PNone then Inr (v, s2)
                else Inr (generate_placeholder_value E col s2))
            else Inr (generate_placeholder_value E col s1))
      else Inr (generate_placeholder_value E col s))"

text \<open>The body of the loop over the columns.\<close>

definition gen_column :: "env \<Rightarrow> string \<Rightarrow> bool \<Rightarrow> column_info \<Rightarrow> row \<Rightarrow> pstate \<Rightarrow> row res" where
  "gen_column E table handle_circular col row_data s =
     (let cn = column_name col in
      if table = ''SyncSource_LogAlert'' \<and> cn = ''SyncSource_ID'' \<and> sync_pool s \<noteq> [] then
        bindE (choice E (sync_pool s) s) (\<lambda>v s1. Inr (AList.update cn v row_data, s1))
      else
        (case fk_lookup E table cn of
           Some fk \<Rightarrow>
             bindE (resolve_fk E table handle_circular col fk s) (\<lambda>v s1.
               Inr (AList.update cn v row_data, s1))
         | None \<Rightarrow>
             (let (v, s1) = gen_value E col (Some table) s
              in Inr (AList.update cn v row_data, s1))))"

fun row_loop :: "env \<Rightarrow> string \<Rightarrow> bool \<Rightarrow> column_info list \<Rightarrow> row \<Rightarrow> pstate \<Rightarrow> row res" where
  "row_loop E table hc [] row_data s = Inr (row_data, s)"
| "row_loop E table hc (col # cols) row_data s =
     (case gen_column E table hc col row_data s of
        Inl e \<Rightarrow> Inl e
      | Inr (row_data', s') \<Rightarrow> row_loop E table hc cols row_data' s')"

definition generate_row_data :: "env \<Rightarrow> string \<Rightarrow> column_info list \<Rightarrow> bool \<Rightarrow> pstate \<Rightarrow> row res" where
  "generate_row_data E table columns handle_circular s =
     bindE (sync_prelude E table s) (\<lambda>_ s1. row_loop E table handle_circular columns [] s1)"

section \<open>Insertion Engine: \<open>_populate_table\<close>\<close>

definition backtick :: string where
  "backtick = [CHR 0x60]"

definition insert_query :: "string \<Rightarrow> string list \<Rightarrow> string" where
  "insert_query table column_names =
     (let placeholders = join '', '' (replicate (length column_names) ''%s'') in
      if table = ''SyncSource'' then
        ''INSERT INTO '' @ backtick @ table @ backtick @ '' ('' @
          join '', '' (map (\<lambda>c. backtick @ c @ backtick) column_names) @
          '') VALUES ('' @ placeholders @ '')''
      else
        ''INSERT INTO '' @ table @ '' ('' @ join '', '' column_names @
          '') VALUES ('' @ placeholders @ '')'')"

text \<open>The loop over the columns that reads the identifier the database assigned
  (lines 147 to 153 and 399 to 404).\<close>

fun backfill :: "env \<Rightarrow> column_info list \<Rightarrow> row \<Rightarrow> pstate \<Rightarrow> row res" where
  "backfill E [] row_data s = Inr (row_data, s)"
| "backfill E (col # cols) row_data s =
     (if extra col = ''auto_increment'' then
        (case db_execute E ''SELECT LAST_INSERT_ID() as id'' None False s of
           Inl e \<Rightarrow> Inl e
         | Inr (result, s1) \<Rightarrow>
             if reply_truthy result then
               (case first_field result ''id'' s1 of
                  Inl e \<Rightarrow> Inl e
                | Inr (v, s2) \<Rightarrow>
                    if truthy v then backfill E cols (AList.update (column_name col) v row_data) s2
                    else backfill E cols row_data s2)
             else backfill E cols row_data s1)
      else backfill E cols row_data s)"

definition append_row :: "string \<Rightarrow> row \<Rightarrow> pstate \<Rightarrow> pstate" where
  "append_row table row_data s =
     s\<lparr>inserted_data := (inserted_data s)(table \<mapsto> store_of s table @ [row_data])\<rparr>"

text \<open>The body of the \<open>try\<close> of both insertion loops (lines 140 to 157 and 393 to 409):
  generate a row, execute the insert with \<open>commit=True\<close>, and on a truthy reply back-fill
  the identifier and append the row. It returns whether the row was stored.\<close>

definition insert_attempt ::
  "env \<Rightarrow> string \<Rightarrow> column_info list \<Rightarrow> bool \<Rightarrow> string \<Rightarrow> pstate \<Rightarrow> bool res" where
  "insert_attempt E table columns handle_circular query s =
     bindE (generate_row_data E table columns handle_circular s) (\<lambda>row_data s1.
     bindE (db_execute E query (Some (map snd row_data)) True s1) (\<lambda>reply s2.
       if reply_truthy reply then
         bindE (backfill E columns row_data s2) (\<lambda>row_data' s3.
           Inr (True, append_row table row_data' s3))
       else Inr (False, s2)))"

text \<open>\<open>for i in range(num_records)\<close> with its \<open>except Error\<close>: a database error skips the
  record, any other exception leaves the loop.\<close>

fun insert_loop ::
  "env \<Rightarrow> string \<Rightarrow> column_info list \<Rightarrow> bool \<Rightarrow> string \<Rightarrow> nat \<Rightarrow> nat \<Rightarrow> pstate \<Rightarrow> nat res" where
  "insert_loop E table columns hc query 0 successful_inserts s = Inr (successful_inserts, s)"
| "insert_loop E table columns hc query (Suc n) successful_inserts s =
     (case insert_attempt E table columns hc query s of
        Inl (DbError, s') \<Rightarrow> insert_loop E table columns hc query n successful_inserts s'
      | Inl (e, s') \<Rightarrow> Inl (e, s')
      | Inr (stored, s') \<Rightarrow>
          insert_loop E table columns hc query n
            (if stored then successful_inserts + 1 else successful_inserts) s')"

definition mark_failed :: "string \<Rightarrow> pstate \<Rightarrow> pstate" where
  "mark_failed table s = s\<lparr>failed_tables := List.insert table (failed_tables s)\<rparr>"

definition populate_table :: "env \<Rightarrow> string \<Rightarrow> bool \<Rightarrow> pstate \<Rightarrow> bool res" where
  "populate_table E table handle_circular s =
     (case table_columns E table of
        None \<Rightarrow> Inr (False, mark_failed table s)
      | Some columns \<Rightarrow>
          (let query = insert_query table (map column_name columns) in
           bindE (insert_loop E table columns handle_circular query (nat (num_records E)) 0 s)
             (\<lambda>successful_inserts s'.
               if int successful_inserts < num_records E then
                 (if successful_inserts = 0 then Inr (False, mark_failed table s')
                  else Inr (True, s'))
               else Inr (True, s'))))"


section \<open>Repair Engine: \<open>_try_partial_population\<close> and \<open>_handle_failed_tables\<close>\<close>

text \<open>\<open>for attempt in range(10)\<close>: the first stored row returns \<open>True\<close>.\<close>

fun partial_loop ::
  "env \<Rightarrow> string \<Rightarrow> column_info list \<Rightarrow> string \<Rightarrow> nat \<Rightarrow> pstate \<Rightarrow> bool res" where
  "partial_loop E table columns query 0 s = Inr (False, s)"
| "partial_loop E table columns query (Suc n) s =
     (case insert_attempt E table columns True query s of
        Inl (DbError, s') \<Rightarrow> partial_loop E table columns query n s'
      | Inl (e, s') \<Rightarrow> Inl (e, s')
      | Inr (stored, s') \<Rightarrow>
          if stored then Inr (True, s') else partial_loop E table columns query n s')"

text \<open>\<open>self.schema.table_columns[table]\<close> is read without the membership test of
  \<open>_populate_table\<close>: a missing key raises KeyError.\<close>

definition try_partial_population :: "env \<Rightarrow> string \<Rightarrow> pstate \<Rightarrow> bool res" where
  "try_partial_population E table s =
     (case table_columns E table of
        None \<Rightarrow> Inl (KeyError, s)
      | Some columns \<Rightarrow>
          partial_loop E table columns (insert_query table (map column_name columns)) 10 s)"

text \<open>\<open>for table in tables_to_try\<close>, collecting \<open>success_in_iteration\<close>.\<close>

fun retry_pass :: "env \<Rightarrow> string list \<Rightarrow> string list \<Rightarrow> pstate \<Rightarrow> string list res" where
  "retry_pass E [] success_in_iteration s = Inr (success_in_iteration, s)"
| "retry_pass E (table # tables) success_in_iteration s =
     (case populate_table E table True s of
        Inl e \<Rightarrow> Inl e
      | Inr (ok, s') \<Rightarrow>
          retry_pass E tables
            (if ok then List.insert table success_in_iteration else success_in_iteration) s')"

text \<open>\<open>for table in list(remaining_tables)\<close>; \<open>set.remove\<close> raises KeyError on a missing
  element.\<close>

fun partial_pass :: "env \<Rightarrow> string list \<Rightarrow> string list \<Rightarrow> pstate \<Rightarrow> string list res" where
  "partial_pass E [] remaining_tables s = Inr (remaining_tables, s)"
| "partial_pass E (table # tables) remaining_tables s =
     (case try_partial_population E table s of
        Inl e \<Rightarrow> Inl e
      | Inr (ok, s') \<Rightarrow>
          if ok then
            (if table \<in> set remaining_tables
             then partial_pass E tables (removeAll table remaining_tables) s'
             else Inl (KeyError, s'))
          else partial_pass E tables remaining_tables s')"

text \<open>One iteration of the \<open>while\<close> loop of \<open>_handle_failed_tables\<close> (lines 329 to
  349), from \<open>remaining_tables\<close> to its value at the end of the iteration.\<close>

definition repair_iteration :: "env \<Rightarrow> string list \<Rightarrow> pstate \<Rightarrow> string list res" where
  "repair_iteration E remaining_tables s =
     (let (listed, s0) = list_of_set E remaining_tables s;
          (tables_to_try, s1) = shuffle E listed s0
      in
      bindE (retry_pass E tables_to_try [] s1) (\<lambda>success_in_iteration s2.
        (let remaining' = filter (\<lambda>t. t \<notin> set success_in_iteration) remaining_tables in
         if success_in_iteration = [] \<and> remaining' \<noteq> [] then
           (let (listed', s3) = list_of_set E remaining' s2
            in partial_pass E listed' remaining' s3)
         else Inr (remaining', s2))))"

text \<open>The \<open>while\<close> loop, on its local variables \<open>remaining_tables\<close> and \<open>retry_count\<close>;
  it returns both.\<close>

function repair_loop ::
  "env \<Rightarrow> string list \<Rightarrow> nat \<Rightarrow> pstate \<Rightarrow> (string list \<times> nat) res" where
  "repair_loop E remaining_tables retry_count s =
     (if remaining_tables \<noteq> [] \<and> int retry_count < max_retries E then
        (case repair_iteration E remaining_tables s of
           Inl e \<Rightarrow> Inl e
         | Inr (remaining', s') \<Rightarrow> repair_loop E remaining' (retry_count + 1) s')
      else Inr ((remaining_tables, retry_count), s))"
  by pat_completeness auto
termination
  by (relation "measure (\<lambda>(E, remaining_tables, retry_count, s). nat (max_retries E - int retry_count))")
     auto

declare repair_loop.simps [simp del]

definition handle_failed_tables :: "env \<Rightarrow> pstate \<Rightarrow> unit res" where
  "handle_failed_tables E s =
     (case repair_loop E (failed_tables s) 0 s of
        Inl e \<Rightarrow> Inl e
      | Inr ((remaining_tables, retry_count), s') \<Rightarrow>
          Inr ((), s'\<lparr>failed_tables := remaining_tables\<rparr>))"

text \<open>The same loop cut off after \<open>n\<close> iterations: \<open>None\<close> when the loop would enter
  an iteration beyond the \<open>n\<close>-th, otherwise what the loop does (its return or the
  exception of an iteration).\<close>

fun repair_within :: "nat \<Rightarrow> env \<Rightarrow> string list \<Rightarrow> nat \<Rightarrow> pstate \<Rightarrow> (string list \<times> nat) res option" where
  "repair_within 0 E remaining_tables retry_count s =
     (if remaining_tables \<noteq> [] \<and> int retry_count < max_retries E then None
      else Some (Inr ((remaining_tables, retry_count), s)))"
| "repair_within (Suc n) E remaining_tables retry_count s =
     (if remaining_tables \<noteq> [] \<and> int retry_count < max_retries E then
        (case repair_iteration E remaining_tables s of
           Inl e \<Rightarrow> Some (Inl e)
         | Inr (remaining', s') \<Rightarrow> repair_within n E remaining' (retry_count + 1) s')
      else Some (Inr ((remaining_tables, retry_count), s)))"

section \<open>Population Orchestrator: \<open>populate_database\<close>\<close>

definition special_order :: "string list \<Rightarrow> string list" where
  "special_order ordered_tables =
     (if ''SyncSource'' \<in> set ordered_tables \<and> ''SyncSource_LogAlert'' \<in> set ordered_tables then
        [''SyncSource''] @
        filter (\<lambda>t. t \<notin> set [''SyncSource'', ''SyncSource_LogAlert'']) ordered_tables @
        [''SyncSource_LogAlert'']
      else ordered_tables)"

text \<open>\<open>for table in tables: self._populate_table(table, handle_circular)\<close>, the result of
  each call dropped.\<close>

fun populate_each :: "env \<Rightarrow> bool \<Rightarrow> string list \<Rightarrow> pstate \<Rightarrow> unit res" where
  "populate_each E hc [] s = Inr ((), s)"
| "populate_each E hc (table # tables) s =
     (case populate_table E table hc s of
        Inl e \<Rightarrow> Inl e
      | Inr (ok, s') \<Rightarrow> populate_each E hc tables s')"

definition final_check :: "pstate \<Rightarrow> bool res" where
  "final_check s = Inr (failed_tables s = [], s)"

text \<open>Lines 65 to 92: the two passes, the repair and the final check, on the order that
  the special case has fixed.\<close>

definition run_passes :: "env \<Rightarrow> string list \<Rightarrow> string list \<Rightarrow> pstate \<Rightarrow> bool res" where
  "run_passes E ordered_tables circular_tables s =
     bindE (populate_each E False
              (filter (\<lambda>t. t \<notin> set circular_tables) ordered_tables) s) (\<lambda>_ s1.
     bindE (if circular_tables \<noteq> [] then
              bindE (populate_each E True
                       (filter (\<lambda>t. t \<in> set circular_tables) ordered_tables) s1) (\<lambda>_ s2.
                if failed_tables s2 \<noteq> [] then handle_failed_tables E s2
                else Inr ((), s2))
            else Inr ((), s1)) (\<lambda>_ s3.
     final_check s3))"

definition populate_database :: "env \<Rightarrow> pstate \<Rightarrow> bool res" where
  "populate_database E s =
     (if \<not> analyze_schema E then Inr (False, s)
      else
        (let (ordered_tables, circular_tables) = get_table_insertion_order E in
         if ordered_tables = [] then Inr (False, s)
         else run_passes E (special_order ordered_tables) circular_tables s))"

text \<open>Section 4.1 of the specification, steps 3 to 6, read literally: Phase 2 runs over the
  circular tables, and the Repair Engine is invoked whenever the failed-table set is not
  empty after Phase 2.\<close>

definition run_passes_spec :: "env \<Rightarrow> string list \<Rightarrow> string list \<Rightarrow> pstate \<Rightarrow> bool res" where
  "run_passes_spec E ordered_tables circular_tables s =
     bindE (populate_each E False
              (filter (\<lambda>t. t \<notin> set circular_tables) ordered_tables) s) (\<lambda>_ s1.
     bindE (populate_each E True
              (filter (\<lambda>t. t \<in> set circular_tables) ordered_tables) s1) (\<lambda>_ s2.
     bindE (if failed_tables s2 \<noteq> [] then handle_failed_tables E s2 else Inr ((), s2)) (\<lambda>_ s3.
     final_check s3)))"

section \<open>Observations on results\<close>

definition returned :: "'a res \<Rightarrow> 'a option" where
  "returned m = (case m of Inl e \<Rightarrow> None | Inr (a, s) \<Rightarrow> Some a)"

definition raised :: "'a res \<Rightarrow> error option" where
  "raised m = (case m of Inl (e, s) \<Rightarrow> Some e | Inr r \<Rightarrow> None)"

text \<open>Two relations between a state and a later one: only the tick and the cached
  identifiers changed; every table's store was extended at its end.\<close>

definition frame_eq :: "pstate \<Rightarrow> pstate \<Rightarrow> bool" where
  "frame_eq s s' \<longleftrightarrow> inserted_data s' = inserted_data s \<and> failed_tables s' = failed_tables s"

definition store_grows :: "pstate \<Rightarrow> pstate \<Rightarrow> bool" where
  "store_grows s s' \<longleftrightarrow> (\<forall>t. prefix (store_of s t) (store_of s' t))"

section \<open>Predicates of the statements, example schemas and environments\<close>

definition col_id :: column_info where
  "col_id = \<lparr>column_name = ''id'', data_type = ''INT'', is_nullable = ''NO'',
              column_key = ''PRI'', extra = ''''\<rparr>"


definition col_note :: column_info where
  "col_note = \<lparr>column_name = ''note'', data_type = ''int'', is_nullable = ''YES'',
              column_key = '''', extra = ''''\<rparr>"

text \<open>A schema whose insertion order names a table \<open>Ghost\<close> that has no column metadata,
  next to a circular table \<open>A\<close>; every statement succeeds.\<close>

definition env_ghost :: env where
  "env_ghost = \<lparr>analyze_schema = True,
     get_table_insertion_order = ([''A'', ''Ghost''], [''A'']),
     table_columns = [''A'' \<mapsto> [col_id]], foreign_keys = Map.empty,
     execute_query = (\<lambda>n q ps c. QTrue), generate_value = (\<lambda>n c t. PInt 1),
     rnd = (\<lambda>n. 0), num_records = 1, max_retries = 1\<rparr>"

definition is_sentinel :: "string \<Rightarrow> bool" where
  "is_sentinel t \<longleftrightarrow> t = ''SyncSource'' \<or> t = ''SyncSource_LogAlert''"


text \<open>Ten insert attempts on a table with one ordinary column; the database raises an
  error on the attempts 1, 4 and 7 (the calls number 1, 7 and 13).\<close>

definition env_flaky :: env where
  "env_flaky = \<lparr>analyze_schema = True,
     get_table_insertion_order = ([''A''], []),
     table_columns = [''A'' \<mapsto> [col_note]], foreign_keys = Map.empty,
     execute_query = (\<lambda>n q ps c. if n \<in> set [1, 7, 13] then QError else QTrue),
     generate_value = (\<lambda>n c t. PInt (int n)),
     rnd = (\<lambda>n. 0), num_records = 10, max_retries = 5\<rparr>"

text \<open>A database that accepts no statement at all.\<close>

definition env_stuck :: env where
  "env_stuck = \<lparr>analyze_schema = True,
     get_table_insertion_order = ([''A''], [''A'']),
     table_columns = [''A'' \<mapsto> [col_note]], foreign_keys = Map.empty,
     execute_query = (\<lambda>n q ps c. QNone),
     generate_value = (\<lambda>n c t. PInt (int n)),
     rnd = (\<lambda>n. 0), num_records = 1, max_retries = 2\<rparr>"

definition failed_state :: "string list \<Rightarrow> pstate" where
  "failed_state ts = init_state\<lparr>failed_tables := ts\<rparr>"

text \<open>The database never reports success for a statement run with \<open>commit=True\<close> (the
  inserts are the only such statements).\<close>

definition never_commits :: "env \<Rightarrow> bool" where
  "never_commits E \<longleftrightarrow> (\<forall>n q ps. \<not> reply_truthy (execute_query E n q ps True))"

definition same_store :: "pstate \<Rightarrow> pstate \<Rightarrow> bool" where
  "same_store s s' \<longleftrightarrow> inserted_data s' = inserted_data s"

text \<open>No circular table; the database refuses the first statement and accepts every later
  one, so the only table fails in Phase 1 and would succeed on a retry.\<close>

definition env_late :: env where
  "env_late = \<lparr>analyze_schema = True,
     get_table_insertion_order = ([''A''], []),
     table_columns = [''A'' \<mapsto> [col_note]], foreign_keys = Map.empty,
     execute_query = (\<lambda>n q ps c. if n < 2 then QNone else QTrue),
     generate_value = (\<lambda>n c t. PInt (int n)),
     rnd = (\<lambda>n. 0), num_records = 1, max_retries = 5\<rparr>"













text \<open>Relations between a state and a later one that the steps of a run keep: a preorder
  that one insert attempt stays inside, and such a preorder that the tick and an
  assignment to \<open>failed_tables\<close> stay inside as well.\<close>

definition attempt_closed :: "env \<Rightarrow> (pstate \<Rightarrow> pstate \<Rightarrow> bool) \<Rightarrow> bool" where
  "attempt_closed E R \<longleftrightarrow>
     (\<forall>s. R s s) \<and> (\<forall>x y z. R x y \<longrightarrow> R y z \<longrightarrow> R x z) \<and>
     (\<forall>table columns hc q s. R s (res_state (insert_attempt E table columns hc q s)))"

definition run_closed :: "env \<Rightarrow> (pstate \<Rightarrow> pstate \<Rightarrow> bool) \<Rightarrow> bool" where
  "run_closed E R \<longleftrightarrow>
     attempt_closed E R \<and> (\<forall>s. R s (next_tick s)) \<and> (\<forall>s f. R s (s\<lparr>failed_tables := f\<rparr>))"

text \<open>The failed-table set is what it was.\<close>

definition same_failed :: "pstate \<Rightarrow> pstate \<Rightarrow> bool" where
  "same_failed s s' \<longleftrightarrow> failed_tables s' = failed_tables s"

section \<open>Frame lemmas: what row generation leaves untouched\<close>

lemma frame_eq_refl [simp]: "frame_eq s s"
  by (simp add: frame_eq_def)

lemma frame_eq_trans: "frame_eq s s1 \<Longrightarrow> frame_eq s1 s2 \<Longrightarrow> frame_eq s s2"
  by (simp add: frame_eq_def)

lemma frame_eq_next_tick [simp]: "frame_eq s (next_tick s)"
  by (simp add: frame_eq_def next_tick_def)

lemma frame_eq_store_of: "frame_eq s s' \<Longrightarrow> store_of s' t = store_of s t"
  by (simp add: frame_eq_def store_of_def)


lemma bindE_Inr_iff: "bindE m f = Inr r \<longleftrightarrow> (\<exists>a s1. m = Inr (a, s1) \<and> f a s1 = Inr r)"
  by (auto simp: bindE_def split: sum.splits)

lemma bindE_Inl_iff:
  "bindE m f = Inl e \<longleftrightarrow> m = Inl e \<or> (\<exists>a s1. m = Inr (a, s1) \<and> f a s1 = Inl e)"
  by (auto simp: bindE_def split: sum.splits)

lemma bindE_Inr [simp]: "bindE (Inr (a, s)) f = f a s"
  by (simp add: bindE_def)

lemma bindE_assoc: "bindE (bindE m f) g = bindE m (\<lambda>a s. bindE (f a s) g)"
  by (simp add: bindE_def split: sum.splits prod.splits)

lemma bindE_if: "bindE (if c then m else n) g = (if c then bindE m g else bindE n g)"
  by simp

lemma res_state_simps [simp]:
  "res_state (Inl p) = snd p" "res_state (Inr q) = snd q"
  by (simp_all add: res_state_def split: prod.splits)

lemma res_stateD:
  "R s (res_state m) \<Longrightarrow> m = Inr (a, s1) \<Longrightarrow> R s s1"
  "R s (res_state m) \<Longrightarrow> m = Inl (e, s1) \<Longrightarrow> R s s1"
  by simp_all

lemma res_state_bindE:
  assumes "R s (res_state m)"
    and "\<And>a s1. m = Inr (a, s1) \<Longrightarrow> R s1 (res_state (f a s1))"
    and "\<And>x y z. R x y \<Longrightarrow> R y z \<Longrightarrow> R x z"
  shows "R s (res_state (bindE m f))"
proof (cases m)
  case (Inl e)
  with assms(1) show ?thesis by (simp add: bindE_def)
next
  case (Inr p)
  obtain a s1 where p: "p = (a, s1)" by (cases p)
  from assms(1) Inr p have "R s s1" by simp
  moreover from assms(2) Inr p have "R s1 (res_state (f a s1))" by simp
  ultimately show ?thesis using Inr p assms(3) by (auto simp: bindE_def)
qed

lemma returned_Some_iff: "returned m = Some a \<longleftrightarrow> (\<exists>s. m = Inr (a, s))"
  by (auto simp: returned_def split: sum.splits)

lemma returnedD: "returned m = Some a \<Longrightarrow> m = Inr (a, res_state m)"
  by (auto simp: returned_def split: sum.splits)

lemma frame_bindE:
  assumes "frame_eq s (res_state m)"
    and "\<And>a s1. m = Inr (a, s1) \<Longrightarrow> frame_eq s1 (res_state (f a s1))"
  shows "frame_eq s (res_state (bindE m f))"
  using assms(1) assms(2) frame_eq_trans by (rule res_state_bindE)

lemma frame_db_execute: "frame_eq s (res_state (db_execute E q ps c s))"
  by (simp add: db_execute_def split: db_reply.splits)

lemma db_execute_reply:
  "db_execute E q ps c s = Inr (reply, s') \<Longrightarrow> reply = execute_query E (tick s) q ps c"
  by (auto simp: db_execute_def split: db_reply.splits)

lemma frame_gen_value: "frame_eq s (snd (gen_value E c tn s))"
  by (simp add: gen_value_def)

lemma frame_randint: "frame_eq s (snd (randint E a b s))"
  by (simp add: randint_def)

lemma frame_choice: "frame_eq s (res_state (choice E xs s))"
  by (simp add: choice_def)


lemma frame_placeholder: "frame_eq s (snd (generate_placeholder_value E c s))"
  by (simp add: generate_placeholder_value_def Let_def split_def frame_randint frame_gen_value)

lemma frame_first_field: "frame_eq s (res_state (first_field r k s))"
  by (cases "(r, k, s)" rule: first_field.cases) (auto split: option.splits)


lemma frame_reply_nonempty: "frame_eq s (res_state (reply_nonempty r s))"
  by (cases "(r, s)" rule: reply_nonempty.cases) auto

lemma frame_rows_field: "frame_eq s (res_state (rows_field r k s))"
  by (cases "(r, k, s)" rule: rows_field.cases) (auto split: option.splits)

lemma frame_sync_ids [simp]: "frame_eq s (s\<lparr>sync_source_ids := x\<rparr>)"
  by (simp add: frame_eq_def)

lemmas frame_prims = frame_db_execute frame_choice frame_first_field frame_reply_nonempty
  frame_rows_field frame_placeholder frame_gen_value

lemma frame_sync_prelude: "frame_eq s (res_state (sync_prelude E table s))"
  unfolding sync_prelude_def
  by (auto intro!: frame_bindE frame_prims)

lemma frame_resolve_fk: "frame_eq s (res_state (resolve_fk E table hc col fk s))"
  unfolding resolve_fk_def Let_def
  by (auto intro!: frame_bindE frame_prims split: option.splits)

lemma frame_gen_column: "frame_eq s (res_state (gen_column E table hc col rd s))"
  unfolding gen_column_def Let_def
  by (auto intro!: frame_bindE frame_prims frame_resolve_fk split: option.splits simp: split_def)

lemma frame_row_loop: "frame_eq s (res_state (row_loop E table hc cols rd s))"
proof (induction cols arbitrary: rd s)
  case Nil
  show ?case by simp
next
  case (Cons col cols)
  let ?m = "gen_column E table hc col rd s"
  have fr: "frame_eq s (res_state ?m)" by (rule frame_gen_column)
  show ?case
  proof (cases ?m)
    case (Inl e)
    with fr show ?thesis by simp
  next
    case (Inr p)
    obtain a s1 where p: "p = (a, s1)" by (cases p)
    from fr Inr p have "frame_eq s s1" by simp
    with Cons.IH [of s1 a] show ?thesis using Inr p by (auto intro: frame_eq_trans)
  qed
qed

lemma frame_generate_row_data:
  "frame_eq s (res_state (generate_row_data E table columns hc s))"
  unfolding generate_row_data_def
  by (auto intro!: frame_bindE frame_sync_prelude frame_row_loop)

lemma frame_backfill: "frame_eq s (res_state (backfill E cols rd s))"
proof (induction cols arbitrary: rd s)
  case Nil
  show ?case by simp
next
  case (Cons col cols)
  let ?m = "db_execute E ''SELECT LAST_INSERT_ID() as id'' None False s"
  have a: "frame_eq s (res_state ?m)"
    by (rule frame_db_execute)
  show ?case
  proof (cases "extra col = ''auto_increment''")
    case False
    with Cons.IH show ?thesis by simp
  next
    case True
    show ?thesis
    proof (cases ?m)
      case (Inl e)
      with a True show ?thesis by simp
    next
      case (Inr p)
      obtain r s1 where p: "p = (r, s1)" by (cases p)
      from a Inr p have s1: "frame_eq s s1" by simp
      show ?thesis
      proof (cases "reply_truthy r")
        case False
        with True Inr p s1 Cons.IH [of s1 rd] show ?thesis
          by (auto intro: frame_eq_trans)
      next
        case rt: True
        let ?f = "first_field r ''id'' s1"
        have b: "frame_eq s1 (res_state ?f)" by (rule frame_first_field)
        show ?thesis
        proof (cases ?f)
          case (Inl e)
          with b s1 True Inr p rt show ?thesis by (auto intro: frame_eq_trans)
        next
          case f: (Inr q)
          obtain v s2 where q: "q = (v, s2)" by (cases q)
          from b f q s1 have "frame_eq s s2" by (auto intro: frame_eq_trans)
          with True Inr p rt f q Cons.IH [of s2] show ?thesis
            by (auto intro: frame_eq_trans)
        qed
      qed
    qed
  qed
qed

lemma shuffle_loop_frame: "frame_eq s (snd (shuffle_loop E k xs s))"
proof (induction k arbitrary: xs s)
  case 0
  show ?case by simp
next
  case (Suc k)
  show ?case using Suc.IH [of "next_tick s"]
    by (auto simp: Let_def intro: frame_eq_trans [OF frame_eq_next_tick])
qed

lemma shuffle_frame: "frame_eq s (snd (shuffle E xs s))"
  unfolding shuffle_def by (rule shuffle_loop_frame)

lemma list_of_set_frame: "frame_eq s (snd (list_of_set E xs s))"
  unfolding list_of_set_def by (rule shuffle_frame)

lemma shuffle_loop_set:
  "k < length xs \<Longrightarrow> set (fst (shuffle_loop E k xs s)) = set xs"
proof (induction k arbitrary: xs s)
  case 0
  show ?case by simp
next
  case (Suc k)
  let ?j = "rnd E (tick s) mod (Suc k + 1)"
  have "?j < Suc k + 1" by simp
  with Suc.prems have j: "?j < length xs" by linarith
  let ?ys = "xs[Suc k := xs ! ?j, ?j := xs ! Suc k]"
  from Suc.prems have "k < length ?ys" by simp
  from Suc.IH [OF this] have "set (fst (shuffle_loop E k ?ys (next_tick s))) = set ?ys" .
  moreover have "set ?ys = set xs" using Suc.prems j by simp
  ultimately show ?case by (simp add: Let_def)
qed

lemma shuffle_set: "set (fst (shuffle E xs s)) = set xs"
proof (cases xs)
  case Nil
  then show ?thesis by (simp add: shuffle_def)
next
  case (Cons x xs')
  then have "length xs - 1 < length xs" by simp
  then show ?thesis unfolding shuffle_def by (rule shuffle_loop_set)
qed

lemma list_of_set_set: "set (fst (list_of_set E xs s)) = set xs"
  by (simp add: list_of_set_def shuffle_set)

section \<open>One insert attempt\<close>

lemma store_of_append_row:
  "store_of (append_row t r s) t' = (if t' = t then store_of s t @ [r] else store_of s t')"
  by (simp add: append_row_def store_of_def)

lemma failed_tables_append_row [simp]: "failed_tables (append_row t r s) = failed_tables s"
  by (simp add: append_row_def)

lemma insert_attempt_Inl:
  assumes "insert_attempt E table columns hc q s = Inl (e, s')"
  shows "frame_eq s s'"
proof -
  consider
    (gen) "generate_row_data E table columns hc s = Inl (e, s')"
  | (exec) rd s1 where "generate_row_data E table columns hc s = Inr (rd, s1)"
      and "db_execute E q (Some (map snd rd)) True s1 = Inl (e, s')"
  | (fill) rd s1 reply s2 where "generate_row_data E table columns hc s = Inr (rd, s1)"
      and "db_execute E q (Some (map snd rd)) True s1 = Inr (reply, s2)"
      and "backfill E columns rd s2 = Inl (e, s')"
    using assms unfolding insert_attempt_def
    by (auto simp: bindE_Inl_iff bindE_Inr_iff split: if_splits)
  then show ?thesis
  proof cases
    case gen
    with frame_generate_row_data show ?thesis by (rule res_stateD)
  next
    case exec
    have "frame_eq s s1" using frame_generate_row_data exec(1) by (rule res_stateD)
    moreover have "frame_eq s1 s'" using frame_db_execute exec(2) by (rule res_stateD)
    ultimately show ?thesis by (rule frame_eq_trans)
  next
    case fill
    have "frame_eq s s1" using frame_generate_row_data fill(1) by (rule res_stateD)
    moreover have "frame_eq s1 s2" using frame_db_execute fill(2) by (rule res_stateD)
    moreover have "frame_eq s2 s'" using frame_backfill fill(3) by (rule res_stateD)
    ultimately show ?thesis by (blast intro: frame_eq_trans)
  qed
qed

lemma insert_attempt_True:
  assumes "insert_attempt E table columns hc q s = Inr (True, s')"
  shows "\<exists>rd s1 reply s2 rd' s3.
           generate_row_data E table columns hc s = Inr (rd, s1) \<and>
           db_execute E q (Some (map snd rd)) True s1 = Inr (reply, s2) \<and>
           reply_truthy reply \<and>
           backfill E columns rd s2 = Inr (rd', s3) \<and>
           s' = append_row table rd' s3 \<and> frame_eq s s3"
proof -
  from assms obtain rd s1 where g: "generate_row_data E table columns hc s = Inr (rd, s1)"
    and r1: "bindE (db_execute E q (Some (map snd rd)) True s1) (\<lambda>reply s2.
       if reply_truthy reply then
         bindE (backfill E columns rd s2) (\<lambda>row_data' s3.
           Inr (True, append_row table row_data' s3))
       else Inr (False, s2)) = Inr (True, s')"
    unfolding insert_attempt_def bindE_Inr_iff by blast
  from r1 obtain reply s2 where d: "db_execute E q (Some (map snd rd)) True s1 = Inr (reply, s2)"
    and r2: "(if reply_truthy reply then
         bindE (backfill E columns rd s2) (\<lambda>row_data' s3.
           Inr (True, append_row table row_data' s3))
       else Inr (False, s2)) = Inr (True, s')"
    unfolding bindE_Inr_iff by blast
  from r2 have t: "reply_truthy reply" by (auto split: if_splits)
  with r2 obtain rd' s3 where b: "backfill E columns rd s2 = Inr (rd', s3)"
    and s': "s' = append_row table rd' s3"
    by (auto simp: bindE_Inr_iff)
  have "frame_eq s s1" using frame_generate_row_data g by (rule res_stateD)
  moreover have "frame_eq s1 s2" using frame_db_execute d by (rule res_stateD)
  moreover have "frame_eq s2 s3" using frame_backfill b by (rule res_stateD)
  ultimately have "frame_eq s s3" by (blast intro: frame_eq_trans)
  with g d t b s' show ?thesis by blast
qed

lemma insert_attempt_False:
  assumes "insert_attempt E table columns hc q s = Inr (False, s')"
  shows "frame_eq s s'"
proof -
  from assms obtain rd s1 reply s2 where g: "generate_row_data E table columns hc s = Inr (rd, s1)"
    and d: "db_execute E q (Some (map snd rd)) True s1 = Inr (reply, s2)"
    and r2: "(if reply_truthy reply then
         bindE (backfill E columns rd s2) (\<lambda>row_data' s3.
           Inr (True, append_row table row_data' s3))
       else Inr (False, s2)) = Inr (False, s')"
    unfolding insert_attempt_def bindE_Inr_iff by blast
  from r2 have "s' = s2" by (auto simp: bindE_Inr_iff split: if_splits)
  moreover have "frame_eq s s1" using frame_generate_row_data g by (rule res_stateD)
  moreover have "frame_eq s1 s2" using frame_db_execute d by (rule res_stateD)
  ultimately show ?thesis by (blast intro: frame_eq_trans)
qed

lemma store_grows_refl: "store_grows s s"
  by (simp add: store_grows_def)

lemma store_grows_trans: "store_grows x y \<Longrightarrow> store_grows y z \<Longrightarrow> store_grows x z"
  unfolding store_grows_def by (meson prefix_order.trans)

lemma frame_eq_store_grows: "frame_eq s s' \<Longrightarrow> store_grows s s'"
  by (simp add: store_grows_def frame_eq_store_of)

lemma store_grows_append_row: "store_grows s (append_row t r s)"
  by (simp add: store_grows_def store_of_append_row)

lemma insert_attempt_store_grows:
  "store_grows s (res_state (insert_attempt E table columns hc q s))"
proof (cases "insert_attempt E table columns hc q s")
  case (Inl p)
  obtain e s' where "p = (e, s')" by (cases p)
  with Inl show ?thesis by (auto dest: insert_attempt_Inl intro: frame_eq_store_grows)
next
  case (Inr p)
  obtain b s' where p: "p = (b, s')" by (cases p)
  show ?thesis
  proof (cases b)
    case False
    with Inr p show ?thesis by (auto dest: insert_attempt_False intro: frame_eq_store_grows)
  next
    case True
    with Inr p insert_attempt_True [of E table columns hc q s s']
    obtain rd' s3 where "s' = append_row table rd' s3" "frame_eq s s3" by auto
    then have "store_grows s s'"
      by (auto intro: store_grows_trans [OF frame_eq_store_grows store_grows_append_row])
    with Inr p show ?thesis by simp
  qed
qed

lemma never_commits_attempt:
  assumes "never_commits E"
  shows "insert_attempt E table columns hc q s \<noteq> Inr (True, s')"
proof
  assume "insert_attempt E table columns hc q s = Inr (True, s')"
  from insert_attempt_True [OF this] obtain rd :: row and s1 reply s2
    where d: "db_execute E q (Some (map snd rd)) True s1 = Inr (reply, s2)"
      and t: "reply_truthy reply" by blast
  from db_execute_reply [OF d] t assms show False by (simp add: never_commits_def)
qed

section \<open>Relations kept by every operation\<close>

lemma attempt_closedD:
  assumes "attempt_closed E R"
  shows "R s s" and "R x y \<Longrightarrow> R y z \<Longrightarrow> R x z"
    and "R s (res_state (insert_attempt E table columns hc q s))"
  using assms unfolding attempt_closed_def by blast+

lemma run_closed_attempt: "run_closed E R \<Longrightarrow> attempt_closed E R"
  by (simp add: run_closed_def)

lemma run_closedD:
  assumes "run_closed E R"
  shows "R s s" and "R x y \<Longrightarrow> R y z \<Longrightarrow> R x z" and "R s (next_tick s)"
    and "R s (s\<lparr>failed_tables := f\<rparr>)"
    and "R s (res_state (insert_attempt E table columns hc q s))"
  using assms unfolding run_closed_def attempt_closed_def by blast+

lemma closed_bindE:
  assumes "run_closed E R" and "R s (res_state m)"
    and "\<And>a s1. m = Inr (a, s1) \<Longrightarrow> R s1 (res_state (f a s1))"
  shows "R s (res_state (bindE m f))"
  using assms(2) assms(3) run_closedD(2) [OF assms(1)] by (rule res_state_bindE)

lemma closed_insert_loop:
  assumes c: "attempt_closed E R"
  shows "R s (res_state (insert_loop E table columns hc q n k s))"
proof (induction n arbitrary: k s)
  case 0
  show ?case by (simp add: attempt_closedD(1) [OF c])
next
  case (Suc n)
  let ?m = "insert_attempt E table columns hc q s"
  have m: "R s (res_state ?m)" by (rule attempt_closedD(3) [OF c])
  show ?case
  proof (cases ?m)
    case (Inl p)
    obtain e s' where p: "p = (e, s')" by (cases p)
    from m Inl p have s': "R s s'" by simp
    show ?thesis
    proof (cases "e = DbError")
      case True
      from s' Suc.IH [of s' k] have "R s (res_state (insert_loop E table columns hc q n k s'))"
        by (rule attempt_closedD(2) [OF c])
      with Inl p True show ?thesis by simp
    next
      case False
      with Inl p s' show ?thesis by (cases e) simp_all
    qed
  next
    case (Inr p)
    obtain b s' where p: "p = (b, s')" by (cases p)
    from m Inr p have s': "R s s'" by simp
    from s' Suc.IH [of s'] have "\<And>k'. R s (res_state (insert_loop E table columns hc q n k' s'))"
      by (rule attempt_closedD(2) [OF c])
    with Inr p show ?thesis by simp
  qed
qed

lemma closed_mark_failed: "run_closed E R \<Longrightarrow> R s (mark_failed t s)"
  unfolding mark_failed_def by (rule run_closedD(4))

lemma closed_populate_table:
  assumes c: "run_closed E R"
  shows "R s (res_state (populate_table E table hc s))"
proof (cases "table_columns E table")
  case None
  then show ?thesis by (simp add: populate_table_def closed_mark_failed [OF c])
next
  case (Some columns)
  show ?thesis
    unfolding populate_table_def Some option.case Let_def
    by (rule closed_bindE [OF c closed_insert_loop [OF run_closed_attempt [OF c]]])
       (simp add: closed_mark_failed [OF c] run_closedD(1) [OF c])
qed

lemma closed_partial_loop:
  assumes c: "attempt_closed E R"
  shows "R s (res_state (partial_loop E table columns q n s))"
proof (induction n arbitrary: s)
  case 0
  show ?case by (simp add: attempt_closedD(1) [OF c])
next
  case (Suc n)
  let ?m = "insert_attempt E table columns True q s"
  have m: "R s (res_state ?m)" by (rule attempt_closedD(3) [OF c])
  show ?case
  proof (cases ?m)
    case (Inl p)
    obtain e s' where p: "p = (e, s')" by (cases p)
    from m Inl p have s': "R s s'" by simp
    show ?thesis
    proof (cases "e = DbError")
      case True
      from s' Suc.IH [of s'] have "R s (res_state (partial_loop E table columns q n s'))"
        by (rule attempt_closedD(2) [OF c])
      with Inl p True show ?thesis by simp
    next
      case False
      with Inl p s' show ?thesis by (cases e) simp_all
    qed
  next
    case (Inr p)
    obtain b s' where p: "p = (b, s')" by (cases p)
    from m Inr p have s': "R s s'" by simp
    from s' Suc.IH [of s'] have "R s (res_state (partial_loop E table columns q n s'))"
      by (rule attempt_closedD(2) [OF c])
    with Inr p s' show ?thesis by simp
  qed
qed

lemma closed_try_partial_population:
  assumes c: "attempt_closed E R"
  shows "R s (res_state (try_partial_population E table s))"
  unfolding try_partial_population_def
  by (cases "table_columns E table") (simp_all add: attempt_closedD(1) [OF c] closed_partial_loop [OF c])

lemma closed_retry_pass:
  assumes c: "run_closed E R"
  shows "R s (res_state (retry_pass E tables acc s))"
proof (induction tables arbitrary: acc s)
  case Nil
  show ?case by (simp add: run_closedD(1) [OF c])
next
  case (Cons t ts)
  let ?m = "populate_table E t True s"
  have m: "R s (res_state ?m)" by (rule closed_populate_table [OF c])
  show ?case
  proof (cases ?m)
    case (Inl p)
    with m show ?thesis by simp
  next
    case (Inr p)
    obtain b s' where p: "p = (b, s')" by (cases p)
    from m Inr p have s': "R s s'" by simp
    from s' Cons.IH [of s'] have "\<And>acc'. R s (res_state (retry_pass E ts acc' s'))"
      by (rule run_closedD(2) [OF c])
    with Inr p show ?thesis by simp
  qed
qed

lemma closed_partial_pass:
  assumes c: "run_closed E R"
  shows "R s (res_state (partial_pass E tables remaining s))"
proof (induction tables arbitrary: remaining s)
  case Nil
  show ?case by (simp add: run_closedD(1) [OF c])
next
  case (Cons t ts)
  let ?m = "try_partial_population E t s"
  have m: "R s (res_state ?m)" by (rule closed_try_partial_population [OF run_closed_attempt [OF c]])
  show ?case
  proof (cases ?m)
    case (Inl p)
    with m show ?thesis by simp
  next
    case (Inr p)
    obtain b s' where p: "p = (b, s')" by (cases p)
    from m Inr p have s': "R s s'" by simp
    from s' Cons.IH [of s'] have "\<And>rem'. R s (res_state (partial_pass E ts rem' s'))"
      by (rule run_closedD(2) [OF c])
    with Inr p s' show ?thesis by simp
  qed
qed

lemma closed_populate_each:
  assumes c: "run_closed E R"
  shows "R s (res_state (populate_each E hc tables s))"
proof (induction tables arbitrary: s)
  case Nil
  show ?case by (simp add: run_closedD(1) [OF c])
next
  case (Cons t ts)
  let ?m = "populate_table E t hc s"
  have m: "R s (res_state ?m)" by (rule closed_populate_table [OF c])
  show ?case
  proof (cases ?m)
    case (Inl p)
    with m show ?thesis by simp
  next
    case (Inr p)
    obtain b s' where p: "p = (b, s')" by (cases p)
    from m Inr p have s': "R s s'" by simp
    from s' Cons.IH [of s'] have "R s (res_state (populate_each E hc ts s'))"
      by (rule run_closedD(2) [OF c])
    with Inr p show ?thesis by simp
  qed
qed

lemma closed_shuffle_loop:
  assumes c: "run_closed E R"
  shows "R s (snd (shuffle_loop E k xs s))"
proof (induction k arbitrary: xs s)
  case 0
  show ?case by (simp add: run_closedD(1) [OF c])
next
  case (Suc k)
  have "R s (next_tick s)" by (rule run_closedD(3) [OF c])
  then show ?case using Suc.IH [of "next_tick s"]
    by (simp add: Let_def) (blast intro: run_closedD(2) [OF c])
qed

lemma closed_shuffle: "run_closed E R \<Longrightarrow> R s (snd (shuffle E xs s))"
  unfolding shuffle_def by (rule closed_shuffle_loop)

lemma closed_list_of_set: "run_closed E R \<Longrightarrow> R s (snd (list_of_set E xs s))"
  unfolding list_of_set_def by (rule closed_shuffle)

lemma closed_repair_iteration:
  assumes c: "run_closed E R"
  shows "R s (res_state (repair_iteration E remaining s))"
proof -
  let ?l = "list_of_set E remaining s"
  let ?sh = "shuffle E (fst ?l) (snd ?l)"
  have 1: "R s (snd ?l)" by (rule closed_list_of_set [OF c])
  have 2: "R (snd ?l) (snd ?sh)" by (rule closed_shuffle [OF c])
  have 3: "R s (snd ?sh)" using 1 2 by (rule run_closedD(2) [OF c])
  have 4: "R (snd ?sh) (res_state (bindE (retry_pass E (fst ?sh) [] (snd ?sh)) f))"
    if f: "\<And>a s1. R s1 (res_state (f a s1))" for f :: "string list \<Rightarrow> pstate \<Rightarrow> string list res"
    by (rule closed_bindE [OF c closed_retry_pass [OF c]]) (rule f)
  have 5: "R s2 (res_state
       (if succ = [] \<and> filter (\<lambda>t. t \<notin> set succ) remaining \<noteq> [] then
          partial_pass E (fst (list_of_set E (filter (\<lambda>t. t \<notin> set succ) remaining) s2))
            (filter (\<lambda>t. t \<notin> set succ) remaining)
            (snd (list_of_set E (filter (\<lambda>t. t \<notin> set succ) remaining) s2))
        else Inr (filter (\<lambda>t. t \<notin> set succ) remaining, s2)))" for succ s2
  proof -
    let ?r = "filter (\<lambda>t. t \<notin> set succ) remaining"
    have "R s2 (snd (list_of_set E ?r s2))" by (rule closed_list_of_set [OF c])
    moreover have "R (snd (list_of_set E ?r s2))
       (res_state (partial_pass E (fst (list_of_set E ?r s2)) ?r (snd (list_of_set E ?r s2))))"
      by (rule closed_partial_pass [OF c])
    ultimately have "R s2
       (res_state (partial_pass E (fst (list_of_set E ?r s2)) ?r (snd (list_of_set E ?r s2))))"
      by (rule run_closedD(2) [OF c])
    then show ?thesis by (auto simp: run_closedD(1) [OF c])
  qed
  show ?thesis
    unfolding repair_iteration_def Let_def split_def
    apply (rule run_closedD(2) [OF c 3])
    apply (rule 4)
    apply (rule 5)
    done
qed

lemma closed_repair_loop:
  "run_closed E R \<Longrightarrow> R s (res_state (repair_loop E remaining rc s))"
proof (induction E remaining rc s rule: repair_loop.induct)
  case (1 E remaining rc s)
  note c = "1.prems"
  show ?case
  proof (cases "remaining \<noteq> [] \<and> int rc < max_retries E")
    case False
    then show ?thesis by (subst repair_loop.simps) (auto simp: run_closedD(1) [OF c])
  next
    case True
    let ?m = "repair_iteration E remaining s"
    have m: "R s (res_state ?m)" by (rule closed_repair_iteration [OF c])
    show ?thesis
    proof (cases ?m)
      case (Inl p)
      with m True show ?thesis by (subst repair_loop.simps) simp
    next
      case (Inr p)
      obtain rem' s' where p: "p = (rem', s')" by (cases p)
      from m Inr p have "R s s'" by simp
      moreover have "R s' (res_state (repair_loop E rem' (rc + 1) s'))"
        using "1.IH" [OF True] Inr p c by auto
      ultimately have "R s (res_state (repair_loop E rem' (rc + 1) s'))"
        by (rule run_closedD(2) [OF c])
      with True Inr p show ?thesis by (subst repair_loop.simps) simp
    qed
  qed
qed

lemma closed_handle_failed_tables:
  assumes c: "run_closed E R"
  shows "R s (res_state (handle_failed_tables E s))"
proof -
  let ?m = "repair_loop E (failed_tables s) 0 s"
  have m: "R s (res_state ?m)" by (rule closed_repair_loop [OF c])
  show ?thesis
  proof (cases ?m)
    case (Inl p)
    with m show ?thesis by (simp add: handle_failed_tables_def)
  next
    case (Inr p)
    obtain rem rc s' where p: "p = ((rem, rc), s')" by (cases p) auto
    from m Inr p have "R s s'" by simp
    then have "R s (s'\<lparr>failed_tables := rem\<rparr>)"
      using run_closedD(4) [OF c] by (rule run_closedD(2) [OF c])
    with Inr p show ?thesis by (simp add: handle_failed_tables_def)
  qed
qed

lemma closed_run_passes:
  assumes c: "run_closed E R"
  shows "R s (res_state (run_passes E ordered circular s))"
  unfolding run_passes_def final_check_def
  by (intro closed_bindE [OF c] closed_populate_each [OF c])
     (auto intro!: closed_bindE [OF c] closed_populate_each [OF c]
        closed_handle_failed_tables [OF c] simp: run_closedD(1) [OF c])

lemma closed_populate_database:
  assumes c: "run_closed E R"
  shows "R s (res_state (populate_database E s))"
  unfolding populate_database_def
  by (auto simp: run_closedD(1) [OF c] closed_run_passes [OF c] split: prod.splits)

lemma run_closed_store_grows: "run_closed E store_grows"
  unfolding run_closed_def attempt_closed_def
  apply (intro conjI allI impI)
      apply (rule store_grows_refl)
     apply (erule store_grows_trans, assumption)
    apply (rule insert_attempt_store_grows)
   apply (simp add: store_grows_def store_of_def next_tick_def)
  apply (simp add: store_grows_def store_of_def)
  done

lemma run_closed_same_store:
  assumes "never_commits E"
  shows "run_closed E same_store"
proof -
  have "same_store s (res_state (insert_attempt E table columns hc q s))" for table columns hc q s
  proof (cases "insert_attempt E table columns hc q s")
    case (Inl p)
    obtain e s' where "p = (e, s')" by (cases p)
    with Inl show ?thesis by (auto dest: insert_attempt_Inl simp: same_store_def frame_eq_def)
  next
    case (Inr p)
    obtain b s' where p: "p = (b, s')" by (cases p)
    with Inr never_commits_attempt [OF assms, of table columns hc q s s'] have "\<not> b" by auto
    with Inr p show ?thesis by (auto dest: insert_attempt_False simp: same_store_def frame_eq_def)
  qed
  then show ?thesis
    unfolding run_closed_def attempt_closed_def by (simp add: same_store_def next_tick_def)
qed

lemma attempt_closed_same_failed: "attempt_closed E same_failed"
proof -
  have "same_failed s (res_state (insert_attempt E table columns hc q s))" for table columns hc q s
  proof (cases "insert_attempt E table columns hc q s")
    case (Inl p)
    obtain e s' where "p = (e, s')" by (cases p)
    with Inl show ?thesis by (auto dest: insert_attempt_Inl simp: same_failed_def frame_eq_def)
  next
    case (Inr p)
    obtain b s' where p: "p = (b, s')" by (cases p)
    show ?thesis
    proof (cases b)
      case False
      with Inr p show ?thesis by (auto dest: insert_attempt_False simp: same_failed_def frame_eq_def)
    next
      case True
      with Inr p insert_attempt_True [of E table columns hc q s s']
      obtain rd' s3 where "s' = append_row table rd' s3" "frame_eq s s3" by auto
      with Inr p show ?thesis by (simp add: same_failed_def frame_eq_def)
    qed
  qed
  then show ?thesis
    unfolding attempt_closed_def by (simp add: same_failed_def)
qed

section \<open>The insertion loop and the repair loop\<close>

lemma insert_loop_count:
  "insert_loop E table columns hc q n k s = Inr (k', s') \<Longrightarrow>
     failed_tables s' = failed_tables s \<and>
     length (store_of s' table) + k = length (store_of s table) + k' \<and> k' \<le> k + n"
proof (induction n arbitrary: k s)
  case 0
  then show ?case by simp
next
  case (Suc n)
  show ?case
  proof (cases "insert_attempt E table columns hc q s")
    case (Inl p)
    obtain e s1 where p: "p = (e, s1)" by (cases p)
    from Inl p have fr: "frame_eq s s1" by (auto dest: insert_attempt_Inl)
    from Suc.prems Inl p have e: "e = DbError"
      and rest: "insert_loop E table columns hc q n k s1 = Inr (k', s')"
      by (cases e; simp)+
    from Suc.IH [OF rest] fr show ?thesis
      by (simp add: frame_eq_store_of) (simp add: frame_eq_def)
  next
    case (Inr p)
    obtain stored s1 where p: "p = (stored, s1)" by (cases p)
    show ?thesis
    proof (cases stored)
      case False
      with Inr p have fr: "frame_eq s s1" by (auto dest: insert_attempt_False)
      from Suc.prems Inr p False have rest: "insert_loop E table columns hc q n k s1 = Inr (k', s')"
        by simp
      from Suc.IH [OF rest] fr show ?thesis
        by (simp add: frame_eq_store_of) (simp add: frame_eq_def)
    next
      case True
      with Inr p insert_attempt_True [of E table columns hc q s s1]
      obtain rd' s3 where s1: "s1 = append_row table rd' s3" and fr: "frame_eq s s3" by auto
      from Suc.prems Inr p True have rest: "insert_loop E table columns hc q n (k + 1) s1 = Inr (k', s')"
        by simp
      have "length (store_of s1 table) = length (store_of s table) + 1"
        and "failed_tables s1 = failed_tables s"
        using s1 fr by (simp_all add: store_of_append_row frame_eq_store_of) (simp add: frame_eq_def)
      with Suc.IH [OF rest] show ?thesis by simp
    qed
  qed
qed

lemma partial_pass_subset:
  "partial_pass E tables remaining s = Inr (rem', s') \<Longrightarrow> set rem' \<subseteq> set remaining"
proof (induction tables arbitrary: remaining s)
  case Nil
  then show ?case by simp
next
  case (Cons t ts)
  show ?case
  proof (cases "try_partial_population E t s")
    case (Inl e)
    with Cons.prems show ?thesis by simp
  next
    case (Inr p)
    obtain ok s1 where p: "p = (ok, s1)" by (cases p)
    show ?thesis
    proof (cases ok)
      case True
      with Cons.prems Inr p have "t \<in> set remaining"
        and "partial_pass E ts (removeAll t remaining) s1 = Inr (rem', s')"
        by (auto split: if_splits)
      from Cons.IH [OF this(2)] show ?thesis by auto
    next
      case False
      with Cons.prems Inr p have "partial_pass E ts remaining s1 = Inr (rem', s')" by simp
      from Cons.IH [OF this] show ?thesis .
    qed
  qed
qed

lemma repair_iteration_subset:
  assumes "repair_iteration E remaining s = Inr (rem', s')"
  shows "set rem' \<subseteq> set remaining"
proof -
  from assms obtain succ s2 where
    r: "(if succ = [] \<and> filter (\<lambda>t. t \<notin> set succ) remaining \<noteq> [] then
          partial_pass E (fst (list_of_set E (filter (\<lambda>t. t \<notin> set succ) remaining) s2))
            (filter (\<lambda>t. t \<notin> set succ) remaining)
            (snd (list_of_set E (filter (\<lambda>t. t \<notin> set succ) remaining) s2))
        else Inr (filter (\<lambda>t. t \<notin> set succ) remaining, s2)) = Inr (rem', s')"
    unfolding repair_iteration_def Let_def split_def bindE_Inr_iff by blast
  show ?thesis
  proof (cases "succ = [] \<and> filter (\<lambda>t. t \<notin> set succ) remaining \<noteq> []")
    case True
    have "partial_pass E (fst (list_of_set E (filter (\<lambda>t. t \<notin> set succ) remaining) s2))
            (filter (\<lambda>t. t \<notin> set succ) remaining)
            (snd (list_of_set E (filter (\<lambda>t. t \<notin> set succ) remaining) s2)) = Inr (rem', s')"
      using r unfolding if_P [OF True] .
    then have "set rem' \<subseteq> set (filter (\<lambda>t. t \<notin> set succ) remaining)"
      by (rule partial_pass_subset)
    also have "\<dots> \<subseteq> set remaining" by (rule filter_is_subset)
    finally show ?thesis .
  next
    case False
    with r have "rem' = filter (\<lambda>t. t \<notin> set succ) remaining" by (auto split: if_splits)
    then show ?thesis by auto
  qed
qed

lemma repair_loop_bounded:
  "repair_loop E remaining rc s = Inr ((rem', rc'), s') \<Longrightarrow>
     set rem' \<subseteq> set remaining \<and> rc \<le> rc' \<and> (rc' = rc \<or> int rc' \<le> max_retries E)"
proof (induction E remaining rc s rule: repair_loop.induct)
  case (1 E remaining rc s)
  show ?case
  proof (cases "remaining \<noteq> [] \<and> int rc < max_retries E")
    case False
    with "1.prems" show ?thesis by (subst (asm) repair_loop.simps) (auto split: if_splits)
  next
    case True
    from "1.prems" True obtain rem1 s1 where
      it: "repair_iteration E remaining s = Inr (rem1, s1)"
      and rest: "repair_loop E rem1 (rc + 1) s1 = Inr ((rem', rc'), s')"
      by (subst (asm) repair_loop.simps) (auto split: sum.splits)
    from "1.IH" [OF True it refl rest]
    have "set rem' \<subseteq> set rem1" and "rc + 1 \<le> rc'"
      and "rc' = rc + 1 \<or> int rc' \<le> max_retries E" by auto
    moreover from it have "set rem1 \<subseteq> set remaining" by (rule repair_iteration_subset)
    ultimately show ?thesis using True by auto
  qed
qed

lemma repair_within_budget:
  "nat (max_retries E) \<le> retry_count + n \<Longrightarrow>
     repair_within n E remaining retry_count s = Some (repair_loop E remaining retry_count s)"
proof (induction n arbitrary: remaining retry_count s)
  case 0
  then have "\<not> int retry_count < max_retries E" by linarith
  then show ?case by (subst repair_loop.simps) simp
next
  case (Suc n)
  show ?case
  proof (cases "remaining \<noteq> [] \<and> int retry_count < max_retries E")
    case False
    then show ?thesis by (subst repair_loop.simps) auto
  next
    case True
    show ?thesis
    proof (cases "repair_iteration E remaining s")
      case (Inl e)
      with True show ?thesis by (subst repair_loop.simps) simp
    next
      case (Inr p)
      obtain rem' s' where p: "p = (rem', s')" by (cases p)
      from Suc.prems have "nat (max_retries E) \<le> (retry_count + 1) + n" by simp
      from Suc.IH [OF this] True Inr p show ?thesis by (subst repair_loop.simps) simp
    qed
  qed
qed

lemma populate_table_failed:
  "set (failed_tables (res_state (populate_table E table hc s))) \<subseteq> insert table (set (failed_tables s))"
proof (cases "table_columns E table")
  case None
  then show ?thesis by (auto simp: populate_table_def mark_failed_def)
next
  case (Some columns)
  let ?l = "insert_loop E table columns hc (insert_query table (map column_name columns))
              (nat (num_records E)) 0 s"
  have l: "same_failed s (res_state ?l)"
    by (rule closed_insert_loop [OF attempt_closed_same_failed])
  show ?thesis
  proof (cases ?l)
    case (Inl p)
    with l Some show ?thesis by (auto simp: populate_table_def bindE_def same_failed_def)
  next
    case (Inr p)
    obtain k s1 where "p = (k, s1)" by (cases p)
    with l Inr Some show ?thesis
      by (auto simp: populate_table_def bindE_def same_failed_def mark_failed_def)
  qed
qed

lemma retry_pass_failed:
  "set (failed_tables (res_state (retry_pass E tables acc s))) \<subseteq> set (failed_tables s) \<union> set tables"
proof (induction tables arbitrary: acc s)
  case Nil
  show ?case by simp
next
  case (Cons t ts)
  let ?m = "populate_table E t True s"
  have m: "set (failed_tables (res_state ?m)) \<subseteq> insert t (set (failed_tables s))"
    by (rule populate_table_failed)
  show ?case
  proof (cases ?m)
    case (Inl p)
    with m show ?thesis by auto
  next
    case (Inr p)
    obtain b s' where p: "p = (b, s')" by (cases p)
    from m Inr p have "set (failed_tables s') \<subseteq> insert t (set (failed_tables s))" by simp
    with Cons.IH [of _ s'] Inr p show ?thesis by (simp add: subset_iff) blast
  qed
qed

lemma partial_pass_failed:
  "failed_tables (res_state (partial_pass E tables remaining s)) = failed_tables s"
proof (induction tables arbitrary: remaining s)
  case Nil
  show ?case by simp
next
  case (Cons t ts)
  let ?m = "try_partial_population E t s"
  have m: "same_failed s (res_state ?m)"
    by (rule closed_try_partial_population [OF attempt_closed_same_failed])
  show ?case
  proof (cases ?m)
    case (Inl p)
    with m show ?thesis by (simp add: same_failed_def)
  next
    case (Inr p)
    obtain b s' where p: "p = (b, s')" by (cases p)
    from m Inr p have "failed_tables s' = failed_tables s" by (simp add: same_failed_def)
    with Cons.IH [of _ s'] Inr p show ?thesis by simp
  qed
qed

lemma repair_iteration_failed:
  "set (failed_tables (res_state (repair_iteration E remaining s)))
     \<subseteq> set (failed_tables s) \<union> set remaining"
proof -
  let ?l = "list_of_set E remaining s"
  let ?sh = "shuffle E (fst ?l) (snd ?l)"
  let ?rp = "retry_pass E (fst ?sh) [] (snd ?sh)"
  have f1: "failed_tables (snd ?sh) = failed_tables s"
    using list_of_set_frame [of s E remaining] shuffle_frame [of "snd ?l" E "fst ?l"]
    by (simp add: frame_eq_def)
  have s1: "set (fst ?sh) = set remaining" by (simp add: shuffle_set list_of_set_set)
  have rp: "set (failed_tables (res_state ?rp)) \<subseteq> set (failed_tables s) \<union> set remaining"
    using retry_pass_failed [of E "fst ?sh" "[]" "snd ?sh"] f1 s1 by simp
  show ?thesis
  proof (cases ?rp)
    case (Inl p)
    with rp show ?thesis
      by (simp add: repair_iteration_def Let_def split_def bindE_def)
  next
    case (Inr p)
    obtain succ s2 where p: "p = (succ, s2)" by (cases p)
    from rp Inr p have s2: "set (failed_tables s2) \<subseteq> set (failed_tables s) \<union> set remaining"
      by simp
    let ?r = "filter (\<lambda>t. t \<notin> set succ) remaining"
    have "failed_tables (res_state (partial_pass E (fst (list_of_set E ?r s2)) ?r
             (snd (list_of_set E ?r s2)))) = failed_tables s2"
      using partial_pass_failed [of E "fst (list_of_set E ?r s2)" ?r "snd (list_of_set E ?r s2)"]
        list_of_set_frame [of s2 E ?r] by (simp add: frame_eq_def)
    with s2 Inr p show ?thesis
      by (auto simp: repair_iteration_def Let_def split_def bindE_def)
  qed
qed

lemma repair_loop_failed:
  "set (failed_tables (res_state (repair_loop E remaining rc s)))
     \<subseteq> set (failed_tables s) \<union> set remaining"
proof (induction E remaining rc s rule: repair_loop.induct)
  case (1 E remaining rc s)
  show ?case
  proof (cases "remaining \<noteq> [] \<and> int rc < max_retries E")
    case False
    then show ?thesis by (subst repair_loop.simps) auto
  next
    case True
    let ?m = "repair_iteration E remaining s"
    have m: "set (failed_tables (res_state ?m)) \<subseteq> set (failed_tables s) \<union> set remaining"
      by (rule repair_iteration_failed)
    show ?thesis
    proof (cases ?m)
      case (Inl p)
      with m True show ?thesis by (subst repair_loop.simps) simp
    next
      case (Inr p)
      obtain rem' s' where p: "p = (rem', s')" by (cases p)
      from Inr p have sub: "set rem' \<subseteq> set remaining" by (auto dest: repair_iteration_subset)
      from m Inr p have "set (failed_tables s') \<subseteq> set (failed_tables s) \<union> set remaining" by simp
      moreover have "set (failed_tables (res_state (repair_loop E rem' (rc + 1) s')))
          \<subseteq> set (failed_tables s') \<union> set rem'"
        using "1.IH" [OF True] Inr p by auto
      ultimately have "set (failed_tables (res_state (repair_loop E rem' (rc + 1) s')))
          \<subseteq> set (failed_tables s) \<union> set remaining"
        using sub by blast
      with True Inr p show ?thesis by (subst repair_loop.simps) simp
    qed
  qed
qed

lemma handle_failed_tables_subset:
  "set (failed_tables (res_state (handle_failed_tables E s))) \<subseteq> set (failed_tables s)"
proof (cases "repair_loop E (failed_tables s) 0 s")
  case (Inl p)
  with repair_loop_failed [of E "failed_tables s" 0 s] show ?thesis
    by (simp add: handle_failed_tables_def)
next
  case (Inr p)
  obtain rem rc s' where p: "p = ((rem, rc), s')" by (cases p) auto
  with Inr repair_loop_bounded [of E "failed_tables s" 0 s rem rc s'] show ?thesis
    by (simp add: handle_failed_tables_def)
qed

section \<open>The identifier back-fill\<close>



section \<open>Foreign keys of a generated row\<close>





section \<open>Decimal digits\<close>



section \<open>Evaluation of the example runs\<close>

lemmas eval_defs = populate_table_def try_partial_population_def insert_attempt_def
  generate_row_data_def sync_prelude_def gen_column_def resolve_fk_def fk_lookup_def
  fk_info_lookup_def resolve_nullable_def has_data_def store_of_def sync_pool_def
  generate_placeholder_value_def db_execute_def gen_value_def randint_def choice_def
  shuffle_def list_of_set_def next_tick_def append_row_def mark_failed_def insert_query_def
  backtick_def bindE_def returned_def raised_def res_state_def init_state_def
  lower_def lower_char_def str_int_def digit_char_def
  handle_failed_tables_def repair_iteration_def run_passes_def populate_database_def
  special_order_def final_check_def repair_loop.simps Let_def

lemmas eval_defs2 = eval_defs run_passes_spec_def store_grows_def same_store_def never_commits_def

lemma stuck_run:
  "returned (repair_loop env_stuck (failed_tables (failed_state [''A''])) 0 (failed_state [''A'']))
     = Some ([''A''], 2)"
  by (simp add: eval_defs env_stuck_def failed_state_def col_note_def eval_nat_numeral)

lemma flaky_run:
  "returned (populate_table env_flaky ''A'' False init_state) = Some True
   \<and> length (store_of (res_state (populate_table env_flaky ''A'' False init_state)) ''A'') = 7
   \<and> failed_tables (res_state (populate_table env_flaky ''A'' False init_state)) = []"
  by (simp add: eval_defs env_flaky_def col_note_def eval_nat_numeral)

lemma stuck_table_run:
  "returned (populate_table env_stuck ''A'' False init_state) = Some False
   \<and> store_of (res_state (populate_table env_stuck ''A'' False init_state)) ''A'' = []
   \<and> failed_tables (res_state (populate_table env_stuck ''A'' False init_state)) = [''A'']"
  by (simp add: eval_defs env_stuck_def col_note_def eval_nat_numeral)

lemma flaky_database_run:
  "returned (populate_database env_flaky init_state) = Some True
   \<and> failed_tables (res_state (populate_database env_flaky init_state)) = []
   \<and> length (store_of (res_state (populate_database env_flaky init_state)) ''A'') = 7"
  by (simp add: eval_defs env_flaky_def col_note_def eval_nat_numeral)




section \<open>The claims\<close>

text \<open>
  C1 (amended). The repair is behind the test \<open>if circular_tables\<close>. When the set of
  circular tables is not empty, \<open>populate_database\<close> is the specification's sequence: Phase
  1, Phase 2, the Repair Engine if a table is in the failed-table set after Phase 2, the
  final check. When it is empty, \<open>populate_database\<close> is Phase 1 followed by the final
  check: the Repair Engine is not invoked, whatever Phase 1 left in the failed-table set.
\<close>

theorem repair_only_with_circular_tables:
  assumes "analyze_schema E" and "get_table_insertion_order E = (ts, cs)" and "ts \<noteq> []"
  shows "(cs \<noteq> [] \<longrightarrow> populate_database E s = run_passes_spec E (special_order ts) cs s)
       \<and> (cs = [] \<longrightarrow> populate_database E s
             = bindE (populate_each E False (special_order ts) s) (\<lambda>_ s1. final_check s1))"
  using assms
  by (simp add: populate_database_def run_passes_def run_passes_spec_def bindE_assoc)

theorem repair_only_with_circular_tables_witness:
  "analyze_schema env_late \<and> get_table_insertion_order env_late = ([''A''], [])
   \<and> populate_database env_late init_state
       = bindE (populate_each env_late False (special_order [''A'']) init_state)
           (\<lambda>_ s1. final_check s1)
   \<and> analyze_schema env_stuck \<and> get_table_insertion_order env_stuck = ([''A''], [''A''])
   \<and> populate_database env_stuck init_state
       = run_passes_spec env_stuck (special_order [''A'']) [''A''] init_state"
proof -
  have a: "analyze_schema env_late" "get_table_insertion_order env_late = ([''A''], [])"
    by (simp_all add: env_late_def)
  have b: "analyze_schema env_stuck" "get_table_insertion_order env_stuck = ([''A''], [''A''])"
    by (simp_all add: env_stuck_def)
  show ?thesis
    using repair_only_with_circular_tables [OF a, of init_state] repair_only_with_circular_tables [OF b, of init_state] a b by simp
qed

text \<open>C1 as stated fails on a schema with no circular table whose only table fails in
  Phase 1: the run returns false with the table still failed, where the Repair Engine,
  had it been invoked on that state, would have emptied the failed-table set (and the
  specification's sequence returns true).\<close>

theorem repair_not_invoked_counterexample:
  "get_table_insertion_order env_late = ([''A''], [])
   \<and> returned (populate_database env_late init_state) = Some False
   \<and> failed_tables (res_state (populate_database env_late init_state)) = [''A'']
   \<and> failed_tables (res_state
        (handle_failed_tables env_late (res_state (populate_database env_late init_state)))) = []
   \<and> returned (run_passes_spec env_late (special_order [''A'']) [] init_state) = Some True"
  by (simp add: eval_defs2 env_late_def col_note_def eval_nat_numeral)







text \<open>
  C4 (amended). For a table the schema knows, when \<open>_populate_table\<close> returns: the rows it
  stored are the growth of the table's store, at most the target count. For a positive
  target count it returns false exactly when it stored no row, and then it has added the
  table to the failed-table set; when it stored at least one row (7 of 10, say) it returns
  true and leaves the failed-table set as it was. For a target count of zero or less it
  returns true, stores nothing and leaves the failed-table set as it was.
\<close>

theorem populate_table_outcome:
  assumes "table_columns E table = Some columns"
    and "returned (populate_table E table hc s) = Some ok"
  shows "(let s' = res_state (populate_table E table hc s);
              stored = length (store_of s' table) - length (store_of s table)
          in length (store_of s table) \<le> length (store_of s' table)
             \<and> int stored \<le> max 0 (num_records E)
             \<and> (0 < num_records E \<longrightarrow>
                  (ok \<longleftrightarrow> 0 < stored)
                  \<and> (stored = 0 \<longrightarrow> failed_tables s' = List.insert table (failed_tables s))
                  \<and> (0 < stored \<longrightarrow> failed_tables s' = failed_tables s))
             \<and> (num_records E \<le> 0 \<longrightarrow>
                  ok \<and> stored = 0 \<and> failed_tables s' = failed_tables s))"
proof -
  let ?q = "insert_query table (map column_name columns)"
  let ?n = "nat (num_records E)"
  from assms obtain s' where run: "populate_table E table hc s = Inr (ok, s')"
    by (auto simp: returned_Some_iff)
  with assms(1) have "bindE (insert_loop E table columns hc ?q ?n 0 s)
      (\<lambda>k s1. if int k < num_records E then
                 (if k = 0 then Inr (False, mark_failed table s1) else Inr (True, s1))
               else Inr (True, s1)) = Inr (ok, s')"
    by (simp add: populate_table_def)
  then obtain k s1 where loop: "insert_loop E table columns hc ?q ?n 0 s = Inr (k, s1)"
    and fin: "(if int k < num_records E then
                 (if k = 0 then Inr (False, mark_failed table s1) else Inr (True, s1))
               else Inr (True, s1)) = (Inr (ok, s') :: bool res)"
    unfolding bindE_Inr_iff by blast
  from insert_loop_count [OF loop]
  have ft: "failed_tables s1 = failed_tables s"
    and len: "length (store_of s1 table) = length (store_of s table) + k" and kn: "k \<le> ?n"
    by auto
  have mf: "store_of (mark_failed table s1) table = store_of s1 table"
    "failed_tables (mark_failed table s1) = List.insert table (failed_tables s1)"
    by (simp_all add: mark_failed_def store_of_def)
  show ?thesis
    using fin ft len kn mf unfolding run Let_def
    by (auto split: if_splits)
qed

theorem populate_table_outcome_witness:
  "table_columns env_flaky ''A'' = Some [col_note] \<and> num_records env_flaky = 10
   \<and> returned (populate_table env_flaky ''A'' False init_state) = Some True
   \<and> length (store_of (res_state (populate_table env_flaky ''A'' False init_state)) ''A'') = 7
   \<and> failed_tables (res_state (populate_table env_flaky ''A'' False init_state)) = []
   \<and> returned (populate_table env_stuck ''A'' False init_state) = Some False
   \<and> failed_tables (res_state (populate_table env_stuck ''A'' False init_state)) = [''A'']
   \<and> returned (populate_table (env_flaky\<lparr>num_records := 0\<rparr>) ''A'' False init_state) = Some True
   \<and> failed_tables (res_state (populate_table (env_flaky\<lparr>num_records := 0\<rparr>) ''A'' False init_state))
        = failed_tables init_state"
proof -
  have c: "table_columns env_flaky ''A'' = Some [col_note]" "table_columns env_stuck ''A'' = Some [col_note]"
    "table_columns (env_flaky\<lparr>num_records := 0\<rparr>) ''A'' = Some [col_note]"
    by (simp_all add: env_flaky_def env_stuck_def)
  have n: "num_records env_flaky = 10" "num_records env_stuck = 1"
    "num_records (env_flaky\<lparr>num_records := 0\<rparr>) = 0"
    by (simp_all add: env_flaky_def env_stuck_def)
  from flaky_run have f: "returned (populate_table env_flaky ''A'' False init_state) = Some True"
    by simp
  from stuck_table_run have g: "returned (populate_table env_stuck ''A'' False init_state) = Some False"
    by simp
  have h: "returned (populate_table (env_flaky\<lparr>num_records := 0\<rparr>) ''A'' False init_state) = Some True"
    by (simp add: eval_defs env_flaky_def col_note_def)
  show ?thesis
    using populate_table_outcome [OF c(1) f] populate_table_outcome [OF c(2) g]
      populate_table_outcome [OF c(3) h] c n h flaky_run stuck_table_run
    by (simp add: init_state_def store_of_def Let_def)
qed

text \<open>C4 as stated fails for a target count of 0: no insert succeeded, yet the call
  returns true and the table is not in the failed-table set.\<close>

theorem populate_table_zero_target_counterexample:
  "returned (populate_table (env_stuck\<lparr>num_records := 0\<rparr>) ''A'' False init_state) = Some True
   \<and> store_of (res_state (populate_table (env_stuck\<lparr>num_records := 0\<rparr>) ''A'' False init_state)) ''A'' = []
   \<and> failed_tables (res_state (populate_table (env_stuck\<lparr>num_records := 0\<rparr>) ''A'' False init_state)) = []"
  by (simp add: eval_defs env_stuck_def col_note_def)

text \<open>
  C5. \<open>repair_loop\<close> is the \<open>while\<close> loop of \<open>_handle_failed_tables\<close>; it is a total
  function, its termination proved with the measure \<open>max_retries - retry_count\<close>, which
  every iteration decreases whether or not it makes progress. Cut off after \<open>max_retries\<close>
  iterations, the loop has always finished, by returning or by the exception of one of
  these iterations. When it returns, \<open>retry_count\<close> (the number of iterations run) is at
  most \<open>max_retries\<close>, and \<open>_handle_failed_tables\<close> returns with the loop's remaining set
  as the failed-table set. However \<open>_handle_failed_tables\<close> ends, the failed-table set it
  leaves behind is a subset of the one it started from.
\<close>

theorem handle_failed_tables_bounded:
  "repair_within (nat (max_retries E)) E (failed_tables s) 0 s
     = Some (repair_loop E (failed_tables s) 0 s)
   \<and> set (failed_tables (res_state (handle_failed_tables E s))) \<subseteq> set (failed_tables s)
   \<and> (returned (repair_loop E (failed_tables s) 0 s) = Some (remaining, retry_count) \<longrightarrow>
        retry_count \<le> nat (max_retries E)
        \<and> set remaining \<subseteq> set (failed_tables s)
        \<and> returned (handle_failed_tables E s) = Some ()
        \<and> failed_tables (res_state (handle_failed_tables E s)) = remaining)"
proof -
  have "retry_count \<le> nat (max_retries E)
        \<and> set remaining \<subseteq> set (failed_tables s)
        \<and> returned (handle_failed_tables E s) = Some ()
        \<and> failed_tables (res_state (handle_failed_tables E s)) = remaining"
    if "returned (repair_loop E (failed_tables s) 0 s) = Some (remaining, retry_count)"
  proof -
    from that obtain s' where
      r: "repair_loop E (failed_tables s) 0 s = Inr ((remaining, retry_count), s')"
      by (auto simp: returned_Some_iff)
    from repair_loop_bounded [OF r] have "set remaining \<subseteq> set (failed_tables s)"
      and "retry_count = 0 \<or> int retry_count \<le> max_retries E" by auto
    moreover from r have "handle_failed_tables E s = Inr ((), s'\<lparr>failed_tables := remaining\<rparr>)"
      by (simp add: handle_failed_tables_def)
    ultimately show ?thesis by (auto simp: returned_def)
  qed
  moreover have "repair_within (nat (max_retries E)) E (failed_tables s) 0 s
     = Some (repair_loop E (failed_tables s) 0 s)"
    by (rule repair_within_budget) simp
  ultimately show ?thesis
    using handle_failed_tables_subset [of E s] by blast
qed

theorem handle_failed_tables_bounded_witness:
  "returned (repair_loop env_stuck (failed_tables (failed_state [''A''])) 0 (failed_state [''A'']))
     = Some ([''A''], 2)
   \<and> (2::nat) \<le> nat (max_retries env_stuck)
   \<and> set [''A''] \<subseteq> set (failed_tables (failed_state [''A'']))
   \<and> returned (handle_failed_tables env_stuck (failed_state [''A''])) = Some ()
   \<and> failed_tables (res_state (handle_failed_tables env_stuck (failed_state [''A'']))) = [''A'']
   \<and> raised (handle_failed_tables env_ghost (failed_state [''Ghost''])) = Some KeyError
   \<and> set (failed_tables (res_state (handle_failed_tables env_ghost (failed_state [''Ghost'']))))
        \<subseteq> set (failed_tables (failed_state [''Ghost'']))"
proof -
  have g: "raised (handle_failed_tables env_ghost (failed_state [''Ghost''])) = Some KeyError"
    by (simp add: eval_defs env_ghost_def failed_state_def eval_nat_numeral)
  show ?thesis
    using handle_failed_tables_bounded [of env_stuck "failed_state [''A'']" "[''A'']" 2]
      handle_failed_tables_bounded [of env_ghost "failed_state [''Ghost'']"] stuck_run g
    by simp
qed

text \<open>
  C6 (fails on the code). Stated: a table absent from the schema metadata is marked failed
  and the run goes on, no exception leaving \<open>populate_database\<close>. \<open>_populate_table\<close> does
  that (third conjunct), but \<open>_try_partial_population\<close> reads \<open>table_columns[table]\<close>
  without the membership test (fourth conjunct), and the run of \<open>populate_database\<close> on the
  schema \<open>env_ghost\<close> reaches it through the repair loop and ends with KeyError instead of
  returning.
\<close>

theorem populate_database_ghost_raises:
  "raised (populate_database env_ghost init_state) = Some KeyError
   \<and> returned (populate_database env_ghost init_state) = None
   \<and> returned (populate_table env_ghost ''Ghost'' True init_state) = Some False
   \<and> raised (try_partial_population env_ghost ''Ghost'' init_state) = Some KeyError"
  by code_simp

text \<open>
  C7. When both sentinel tables are in the order, \<open>populate_database\<close> works on the order
  with \<open>SyncSource\<close> first, \<open>SyncSource_LogAlert\<close> last and the other tables in their
  relative order; when one of them is absent the order is used as the schema analyzer
  returned it. The last conjunct says that the passes of \<open>populate_database\<close> run on
  exactly this order.
\<close>

theorem special_order_sentinels:
  "(''SyncSource'' \<in> set ts \<and> ''SyncSource_LogAlert'' \<in> set ts \<longrightarrow>
      special_order ts = ''SyncSource'' # filter (\<lambda>t. \<not> is_sentinel t) ts @ [''SyncSource_LogAlert'']
      \<and> hd (special_order ts) = ''SyncSource''
      \<and> last (special_order ts) = ''SyncSource_LogAlert''
      \<and> filter (\<lambda>t. \<not> is_sentinel t) (special_order ts) = filter (\<lambda>t. \<not> is_sentinel t) ts)
   \<and> (''SyncSource'' \<notin> set ts \<or> ''SyncSource_LogAlert'' \<notin> set ts \<longrightarrow> special_order ts = ts)
   \<and> (analyze_schema E \<and> get_table_insertion_order E = (ts, cs) \<and> ts \<noteq> [] \<longrightarrow>
        populate_database E s = run_passes E (special_order ts) cs s)"
  by (auto simp: special_order_def is_sentinel_def populate_database_def)

theorem special_order_sentinels_witness:
  "special_order [''A'', ''SyncSource_LogAlert'', ''B'', ''SyncSource'']
     = [''SyncSource'', ''A'', ''B'', ''SyncSource_LogAlert'']
   \<and> special_order [''A'', ''SyncSource_LogAlert'', ''B''] = [''A'', ''SyncSource_LogAlert'', ''B'']
   \<and> populate_database env_ghost init_state
       = run_passes env_ghost (special_order [''A'', ''Ghost'']) [''A''] init_state"
  using special_order_sentinels [of "[''A'', ''SyncSource_LogAlert'', ''B'', ''SyncSource'']" env_ghost "[''A'']" init_state]
    special_order_sentinels [of "[''A'', ''SyncSource_LogAlert'', ''B'']" env_ghost "[''A'']" init_state]
    special_order_sentinels [of "[''A'', ''Ghost'']" env_ghost "[''A'']" init_state]
  by (simp add: is_sentinel_def env_ghost_def)



text \<open>
  C9. The per-table row store only grows: after \<open>_populate_table\<close>,
  \<open>_try_partial_population\<close>, \<open>_handle_failed_tables\<close> and \<open>populate_database\<close>, whether
  they return or raise, every table's store is its former store with rows appended at the
  end, so no entry is removed or changed. One insert attempt appends a row only when the
  insert run with \<open>commit=True\<close> returned a truthy reply, and the row appended is the
  generated row after the back-fill; in every other outcome of the attempt the store is
  what it was. With a database that never reports a committed insert, a whole run leaves
  the store untouched. (A row is a fresh dictionary held by no other variable once it is
  appended, so nothing can change it later through an alias.)
\<close>

theorem row_store_invariant:
  "store_grows s (res_state (populate_table E table hc s))
   \<and> store_grows s (res_state (try_partial_population E table s))
   \<and> store_grows s (res_state (handle_failed_tables E s))
   \<and> store_grows s (res_state (populate_database E s))
   \<and> (returned (insert_attempt E table columns hc q s) = Some True \<longrightarrow>
        (\<exists>rd s1 reply s2 rd' s3.
           generate_row_data E table columns hc s = Inr (rd, s1) \<and>
           db_execute E q (Some (map snd rd)) True s1 = Inr (reply, s2) \<and>
           reply_truthy reply \<and>
           backfill E columns rd s2 = Inr (rd', s3) \<and>
           store_of (res_state (insert_attempt E table columns hc q s)) table
             = store_of s table @ [rd']))
   \<and> (returned (insert_attempt E table columns hc q s) \<noteq> Some True \<longrightarrow>
        same_store s (res_state (insert_attempt E table columns hc q s)))
   \<and> (never_commits E \<longrightarrow> same_store s (res_state (populate_database E s)))"
proof -
  let ?m = "insert_attempt E table columns hc q s"
  have a: "\<exists>rd s1 reply s2 rd' s3.
           generate_row_data E table columns hc s = Inr (rd, s1) \<and>
           db_execute E q (Some (map snd rd)) True s1 = Inr (reply, s2) \<and>
           reply_truthy reply \<and>
           backfill E columns rd s2 = Inr (rd', s3) \<and>
           store_of (res_state ?m) table = store_of s table @ [rd']"
    if "returned ?m = Some True"
  proof -
    from that obtain s' where m: "?m = Inr (True, s')" by (auto simp: returned_Some_iff)
    from insert_attempt_True [OF m] obtain rd s1 reply s2 rd' s3 where
      "generate_row_data E table columns hc s = Inr (rd, s1)"
      "db_execute E q (Some (map snd rd)) True s1 = Inr (reply, s2)"
      "reply_truthy reply" "backfill E columns rd s2 = Inr (rd', s3)"
      and s': "s' = append_row table rd' s3" and fr: "frame_eq s s3" by blast
    moreover from s' fr have "store_of (res_state ?m) table = store_of s table @ [rd']"
      by (simp add: m store_of_append_row frame_eq_store_of)
    ultimately show ?thesis by blast
  qed
  have b: "same_store s (res_state ?m)" if "returned ?m \<noteq> Some True"
  proof (cases ?m)
    case (Inl p)
    obtain e s' where "p = (e, s')" by (cases p)
    with Inl show ?thesis by (auto dest: insert_attempt_Inl simp: same_store_def frame_eq_def)
  next
    case (Inr p)
    obtain b s' where p: "p = (b, s')" by (cases p)
    with Inr that have "\<not> b" by (auto simp: returned_def)
    with Inr p show ?thesis by (auto dest: insert_attempt_False simp: same_store_def frame_eq_def)
  qed
  show ?thesis
    using a b
    by (simp add: closed_populate_table [OF run_closed_store_grows]
        closed_try_partial_population [OF run_closed_attempt [OF run_closed_store_grows]]
        closed_handle_failed_tables [OF run_closed_store_grows]
        closed_populate_database [OF run_closed_store_grows]
        closed_populate_database [OF run_closed_same_store])
qed

theorem row_store_invariant_witness:
  "store_grows init_state (res_state (populate_database env_flaky init_state))
   \<and> length (store_of (res_state (populate_database env_flaky init_state)) ''A'') = 7
   \<and> returned (insert_attempt env_flaky ''A'' [col_note] False ''INSERT'' (init_state\<lparr>tick := 2\<rparr>))
       = Some True
   \<and> store_of (res_state (insert_attempt env_flaky ''A'' [col_note] False ''INSERT''
        (init_state\<lparr>tick := 2\<rparr>))) ''A'' = [[(''note'', PInt 2)]]
   \<and> returned (insert_attempt env_flaky ''A'' [col_note] False ''INSERT'' init_state) = None
   \<and> same_store init_state
        (res_state (insert_attempt env_flaky ''A'' [col_note] False ''INSERT'' init_state))
   \<and> never_commits env_stuck
   \<and> same_store init_state (res_state (populate_database env_stuck init_state))"
proof -
  have n: "never_commits env_stuck" by (simp add: never_commits_def env_stuck_def)
  have t: "returned (insert_attempt env_flaky ''A'' [col_note] False ''INSERT'' (init_state\<lparr>tick := 2\<rparr>))
       = Some True"
    "store_of (res_state (insert_attempt env_flaky ''A'' [col_note] False ''INSERT''
        (init_state\<lparr>tick := 2\<rparr>))) ''A'' = [[(''note'', PInt 2)]]"
    "returned (insert_attempt env_flaky ''A'' [col_note] False ''INSERT'' init_state) = None"
    by (simp_all add: eval_defs env_flaky_def col_note_def)
  show ?thesis
    using row_store_invariant [of init_state env_flaky "''A''" False "[col_note]" "''INSERT''"]
      row_store_invariant [of "init_state\<lparr>tick := 2\<rparr>" env_flaky "''A''" False "[col_note]" "''INSERT''"]
      row_store_invariant [of init_state env_stuck "''A''" False "[col_note]" "''INSERT''"]
      n t flaky_database_run
    by simp
qed



end
